theory Spec2Isabelle
  imports Main "HOL-Library.AList"
begin

section \<open>Strings\<close>

text \<open>
  Python strings are modelled as \<^typ>\<open>string\<close>: one \<^typ>\<open>char\<close> per code point
  below 256.  \<open>isspace\<close> is the whitespace predicate that both \<open>str.strip()\<close> and the
  regular-expression class \<open>\s\<close> use, restricted to that range.
\<close>

definition isspace :: "char \<Rightarrow> bool" where
  "isspace c \<longleftrightarrow>
     c \<in> set [CHR 0x09, CHR 0x0A, CHR 0x0B, CHR 0x0C, CHR 0x0D,
               CHR 0x1C, CHR 0x1D, CHR 0x1E, CHR 0x1F, CHR 0x20, CHR 0x85, CHR 0xA0]"

text \<open>\<open>s.strip()\<close>\<close>

definition py_strip :: "string \<Rightarrow> string" where
  "py_strip s = rev (dropWhile isspace (rev (dropWhile isspace s)))"

text \<open>\<open>s.startswith(w)\<close>\<close>

fun starts_with :: "string \<Rightarrow> string \<Rightarrow> bool" where
  "starts_with s [] = True"
| "starts_with [] (c # w) = False"
| "starts_with (d # s) (c # w) = (c = d \<and> starts_with s w)"

text \<open>\<open>w in s\<close> for two strings: \<open>w\<close> occurs in \<open>s\<close> as a contiguous substring.\<close>

fun occurs_in :: "string \<Rightarrow> string \<Rightarrow> bool" where
  "occurs_in w [] = (w = [])"
| "occurs_in w (c # s) = (starts_with (c # s) w \<or> occurs_in w s)"

section \<open>Regular expressions of the \<open>re\<close> module\<close>

text \<open>
  The fragment of Python's \<open>re\<close> syntax that the repository's three patterns use:
  literal text, a greedy star \<open>X*\<close> and a lazy star \<open>X*?\<close> over a character class, one
  capturing group, and concatenation.  All patterns are compiled with \<open>re.DOTALL\<close>, so
  \<open>.\<close> is the class of every character.
\<close>

datatype cclass = AnyChar | Space

fun in_class :: "cclass \<Rightarrow> char \<Rightarrow> bool" where
  "in_class AnyChar c = True"
| "in_class Space c = isspace c"

datatype rx = Lit string | StarG cclass | StarL cclass | Seq rx rx | Grp rx

text \<open>
  A matcher state is the text captured by group 1 so far and the text not yet consumed.
  \<open>rx_match\<close> returns every way the pattern can match at the start of the text, in the
  order in which Python's backtracking matcher tries them: a greedy star tries the
  longest repetition first, a lazy star the shortest first.  The head of the list is the
  match the matcher reports.
\<close>

type_synonym mstate = "string option \<times> string"

fun lit_match :: "string \<Rightarrow> string \<Rightarrow> string option" where
  "lit_match [] s = Some s"
| "lit_match (c # w) [] = None"
| "lit_match (c # w) (d # s) = (if c = d then lit_match w s else None)"

fun star_greedy :: "(char \<Rightarrow> bool) \<Rightarrow> string \<Rightarrow> string list" where
  "star_greedy P [] = [[]]"
| "star_greedy P (c # s) = (if P c then star_greedy P s @ [c # s] else [c # s])"

fun star_lazy :: "(char \<Rightarrow> bool) \<Rightarrow> string \<Rightarrow> string list" where
  "star_lazy P [] = [[]]"
| "star_lazy P (c # s) = (c # s) # (if P c then star_lazy P s else [])"

fun rx_match :: "rx \<Rightarrow> mstate \<Rightarrow> mstate list" where
  "rx_match (Lit w) (g, s) = (case lit_match w s of None \<Rightarrow> [] | Some r \<Rightarrow> [(g, r)])"
| "rx_match (StarG k) (g, s) = map (Pair g) (star_greedy (in_class k) s)"
| "rx_match (StarL k) (g, s) = map (Pair g) (star_lazy (in_class k) s)"
| "rx_match (Seq a b) st = concat (map (rx_match b) (rx_match a st))"
| "rx_match (Grp a) (g, s) =
     map (\<lambda>(g', r). (Some (take (length s - length r) s), r)) (rx_match a (g, s))"

text \<open>
  \<open>re.search(pattern, text)\<close>: the first match at the leftmost position that has one.
  The result is the match's group 1 and the text after the match.
\<close>

fun re_search :: "rx \<Rightarrow> string \<Rightarrow> mstate option" where
  "re_search r [] = (case rx_match r (None, []) of [] \<Rightarrow> None | m # _ \<Rightarrow> Some m)"
| "re_search r (c # s) =
     (case rx_match r (None, c # s) of [] \<Rightarrow> re_search r s | m # _ \<Rightarrow> Some m)"

text \<open>
  \<open>re.sub(pattern, "", text)\<close>: scanning from the left, every match is deleted and the
  scan goes on after it; a character at which no match starts is copied.  A match that
  consumes nothing deletes nothing, and the scan copies the next character.
\<close>

function re_sub_empty :: "rx \<Rightarrow> string \<Rightarrow> string" where
  "re_sub_empty r s =
     (case s of
        [] \<Rightarrow> []
      | c # cs \<Rightarrow>
          (case rx_match r (None, s) of
             [] \<Rightarrow> c # re_sub_empty r cs
           | (g, rest) # _ \<Rightarrow>
               if length rest < length s then re_sub_empty r rest
               else c # re_sub_empty r cs))"
  by pat_completeness auto
termination
  by (relation "measure (\<lambda>(r, s). length s)") auto

section \<open>Extraction of the JSON candidate (\<open>tool_agent.py\<close>)\<close>

text \<open>The pattern \<open>```json\s*(\{.*\})\s*```\<close> and the pattern \<open>```\s*(\{.*\})\s*```\<close>.\<close>

definition json_fence_rx :: rx where
  "json_fence_rx =
     Seq (Lit ''```json'') (Seq (StarG Space)
       (Seq (Grp (Seq (Lit ''{'') (Seq (StarG AnyChar) (Lit ''}''))))
         (Seq (StarG Space) (Lit ''```''))))"

definition any_fence_rx :: rx where
  "any_fence_rx =
     Seq (Lit ''```'') (Seq (StarG Space)
       (Seq (Grp (Seq (Lit ''{'') (Seq (StarG AnyChar) (Lit ''}''))))
         (Seq (StarG Space) (Lit ''```''))))"

text \<open>\<open>m.group(1)\<close> of a match object.\<close>

definition group1 :: "mstate \<Rightarrow> string" where
  "group1 m = (case fst m of None \<Rightarrow> [] | Some g \<Rightarrow> g)"

definition extract_json_from_text :: "string \<Rightarrow> string" where
  "extract_json_from_text text =
     (let stripped = py_strip text in
      case re_search json_fence_rx stripped of
        Some m \<Rightarrow> py_strip (group1 m)
      | None \<Rightarrow>
          (case re_search any_fence_rx stripped of
             Some m \<Rightarrow> py_strip (group1 m)
           | None \<Rightarrow> stripped))"

section \<open>Reasoning markup of the model gateway (\<open>core/claude.py\<close>)\<close>

text \<open>The pattern \<open>\[THINK\].*?\[/THINK\]\<close> of \<open>Claude.strip_thinking\<close>.\<close>

definition think_rx :: rx where
  "think_rx = Seq (Lit ''[THINK]'') (Seq (StarL AnyChar) (Lit ''[/THINK]''))"

definition strip_thinking :: "string \<Rightarrow> string" where
  "strip_thinking text = (let cleaned = re_sub_empty think_rx text in py_strip cleaned)"

section \<open>JSON values and Python dictionaries\<close>

text \<open>
  A value returned by \<open>json.loads\<close>.  A float is kept as mantissa and binary exponent;
  only its being zero is ever inspected.  An object is a Python \<open>dict\<close>: an association
  list in insertion order, read with \<^const>\<open>map_of\<close>, written with
  \<^const>\<open>AList.update\<close> (a new key goes to the end) and \<^const>\<open>AList.delete\<close>.
\<close>

datatype json =
    JNull
  | JBool bool
  | JInt int
  | JFloat int int
  | JStr string
  | JArr "json list"
  | JObj "(string \<times> json) list"

type_synonym dict = "(string \<times> json) list"

text \<open>Python's truth value of a JSON value, as \<open>x or {}\<close> tests it.\<close>

fun truthy :: "json \<Rightarrow> bool" where
  "truthy JNull = False"
| "truthy (JBool b) = b"
| "truthy (JInt i) = (i \<noteq> 0)"
| "truthy (JFloat m e) = (m \<noteq> 0)"
| "truthy (JStr s) = (s \<noteq> [])"
| "truthy (JArr xs) = (xs \<noteq> [])"
| "truthy (JObj d) = (d \<noteq> [])"

text \<open>\<open>str(v)\<close>: a string is itself; every other value is rendered by \<open>rp\<close>.\<close>

definition py_str :: "(json \<Rightarrow> string) \<Rightarrow> json \<Rightarrow> string" where
  "py_str rp v = (case v of JStr s \<Rightarrow> s | _ \<Rightarrow> rp v)"

datatype py_error =
    TypeError
  | AttributeError
  | KeyError
  | JSONDecodeError
  | RecursionError
  | ValueError string
  | ToolError string
  | TransportError string

definition bindE :: "py_error + 'a \<Rightarrow> ('a \<Rightarrow> py_error + 'b) \<Rightarrow> py_error + 'b" where
  "bindE m f = (case m of Inl e \<Rightarrow> Inl e | Inr x \<Rightarrow> f x)"

section \<open>Argument normalization for \<open>edit_document\<close> (\<open>tool_agent.py\<close>, lines 157--171)\<close>

text \<open>
  \<open>k in arguments\<close>.  \<open>arguments\<close> is whatever JSON value the model put under
  \<open>"arguments"\<close>: key membership for a dict, element membership for a list, substring
  test for a string, and \<open>TypeError\<close> for a value that is not a container.
\<close>

fun py_in :: "string \<Rightarrow> json \<Rightarrow> py_error + bool" where
  "py_in k (JObj d) = Inr (map_of d k \<noteq> None)"
| "py_in k (JArr xs) = Inr (JStr k \<in> set xs)"
| "py_in k (JStr s) = Inr (occurs_in k s)"
| "py_in k JNull = Inl TypeError"
| "py_in k (JBool b) = Inl TypeError"
| "py_in k (JInt i) = Inl TypeError"
| "py_in k (JFloat m e) = Inl TypeError"

text \<open>
  \<open>arguments[canon] = arguments.pop(alias)\<close>.  On a dict the alias key is removed and
  its value stored under the canonical key; \<open>list.pop\<close> rejects a string index and a
  string has no \<open>pop\<close>.
\<close>

fun py_rename :: "string \<Rightarrow> string \<Rightarrow> json \<Rightarrow> py_error + json" where
  "py_rename canon alias (JObj d) =
     (case map_of d alias of
        None \<Rightarrow> Inl KeyError
      | Some v \<Rightarrow> Inr (JObj (AList.update canon v (AList.delete alias d))))"
| "py_rename canon alias (JArr xs) = Inl TypeError"
| "py_rename canon alias v = Inl AttributeError"

definition normalize_edit_arguments :: "json \<Rightarrow> py_error + json" where
  "normalize_edit_arguments arguments =
     bindE (py_in ''old_str'' arguments) (\<lambda>has_old.
     bindE (if \<not> has_old then
              bindE (py_in ''old_string'' arguments) (\<lambda>c1.
                if c1 then py_rename ''old_str'' ''old_string'' arguments
                else bindE (py_in ''old'' arguments) (\<lambda>c2.
                  if c2 then py_rename ''old_str'' ''old'' arguments
                  else Inr arguments))
            else Inr arguments) (\<lambda>arguments.
     bindE (py_in ''new_str'' arguments) (\<lambda>has_new.
       if \<not> has_new then
         bindE (py_in ''new_string'' arguments) (\<lambda>c1.
           if c1 then py_rename ''new_str'' ''new_string'' arguments
           else bindE (py_in ''new_striing'' arguments) (\<lambda>c2.
             if c2 then py_rename ''new_str'' ''new_striing'' arguments
             else bindE (py_in ''new'' arguments) (\<lambda>c3.
               if c3 then py_rename ''new_str'' ''new'' arguments
               else Inr arguments)))
       else Inr arguments)))"

section \<open>Messages and tool results\<close>

text \<open>
  \<open>LocalMessage\<close>: its content is a list of blocks, a string, or some other object
  (given by its \<open>str()\<close>); a block is a dict, a string, or some other object.
\<close>

datatype block = BDict dict | BStr string | BOther

datatype msg_content = ContentList "block list" | ContentStr string | ContentOther string

record local_message =
  content :: msg_content
  stop_reason :: string

text \<open>
  A tool result: a \<open>CallToolResult\<close> with its content blocks and its structured
  content (\<open>None\<close> or a JSON value), or any other object.
\<close>

datatype content_block = TextContent string | OtherContent

datatype tool_result = CallToolResult "content_block list" "json option" | OtherResult

text \<open>
  What the dispatch loop takes from outside: the JSON parser, Python's \<open>str()\<close> of values
  that are not strings, the two model calls and the tool provider.  A call that raises
  returns \<open>Inl\<close>.  \<open>json.loads\<close> raises \<open>JSONDecodeError\<close> on text that is not JSON, and it
  can raise other exceptions: \<open>RecursionError\<close> on nesting deeper than the interpreter's
  recursion limit, a plain \<open>ValueError\<close> on an integer literal longer than the
  interpreter's digit limit.  For the tool provider the exceptions are those of class
  \<open>Exception\<close>, which the loop catches.
\<close>

record environment =
  json_loads :: "string \<Rightarrow> py_error + json"
  repr_json :: "json \<Rightarrow> string"
  repr_content :: "content_block list \<Rightarrow> string"
  repr_result :: "tool_result \<Rightarrow> string"
  chat_decide :: "string \<Rightarrow> py_error + local_message"
  call_tool :: "json \<Rightarrow> json \<Rightarrow> py_error + tool_result"
  chat_followup :: "string \<Rightarrow> json \<Rightarrow> string \<Rightarrow> py_error + local_message"

text \<open>\<open>sep.join(parts)\<close>\<close>

fun join :: "string \<Rightarrow> string list \<Rightarrow> string" where
  "join sep [] = []"
| "join sep [x] = x"
| "join sep (x # y # ys) = x @ sep @ join sep (y # ys)"

text \<open>What one block appends to \<open>parts\<close> in \<open>Claude.text_from_message\<close>.\<close>

fun block_parts :: "(json \<Rightarrow> string) \<Rightarrow> block \<Rightarrow> string list" where
  "block_parts rp (BDict d) =
     (case map_of d ''text'' of Some v \<Rightarrow> [py_str rp v] | None \<Rightarrow> [rp (JObj d)])"
| "block_parts rp (BStr s) = [s]"
| "block_parts rp BOther = []"

definition message_raw :: "(json \<Rightarrow> string) \<Rightarrow> local_message \<Rightarrow> string" where
  "message_raw rp message =
     (case content message of
        ContentList blocks \<Rightarrow> join ''\<newline>'' (concat (map (block_parts rp) blocks))
      | ContentStr s \<Rightarrow> s
      | ContentOther s \<Rightarrow> s)"

definition text_from_message :: "(json \<Rightarrow> string) \<Rightarrow> local_message \<Rightarrow> string" where
  "text_from_message rp message = strip_thinking (message_raw rp message)"

text \<open>The loop over \<open>result.content\<close> in \<open>extract_tool_result_text\<close>.\<close>

fun first_text :: "content_block list \<Rightarrow> string option" where
  "first_text [] = None"
| "first_text (TextContent t # cs) = Some t"
| "first_text (OtherContent # cs) = first_text cs"

definition extract_tool_result_text :: "environment \<Rightarrow> tool_result \<Rightarrow> string" where
  "extract_tool_result_text env result =
     (case result of
        CallToolResult cont structuredContent \<Rightarrow>
          (case (case structuredContent of Some (JObj d) \<Rightarrow> map_of d ''result'' | _ \<Rightarrow> None) of
             Some v \<Rightarrow> py_str (repr_json env) v
           | None \<Rightarrow>
               if cont \<noteq> [] then
                 (case first_text cont of Some t \<Rightarrow> t | None \<Rightarrow> repr_content env cont)
               else repr_result env result)
      | OtherResult \<Rightarrow> repr_result env result)"

section \<open>One turn of the dispatch loop (\<open>chat_with_tools\<close>, lines 123--211)\<close>

text \<open>
  What a turn does, in order: each \<open>print\<close> block, each model call and the tool call is
  one event.  A turn ends back at the prompt, or with an exception that nothing catches.
\<close>

datatype event =
    ChatDecide string
  | PrintInvalidJson string string
  | PrintAnswer json
  | PrintToolRequest json json
  | CallTool json json
  | PrintToolError json py_error
  | PrintToolResult json string
  | ChatFollowup string json string
  | PrintFinalAnswer string
  | PrintUnrecognized json

datatype outcome = AwaitingInput | Raised py_error

text \<open>\<open>obj.get("arguments", {}) or {}\<close>\<close>

definition get_arguments :: "dict \<Rightarrow> json" where
  "get_arguments obj =
     (case map_of obj ''arguments'' of
        None \<Rightarrow> JObj []
      | Some v \<Rightarrow> if truthy v then v else JObj [])"

text \<open>Lines 173--206: the tool call and, when it returns, the follow-up model call.\<close>

definition execute_tool :: "environment \<Rightarrow> string \<Rightarrow> json \<Rightarrow> json \<Rightarrow> event list \<times> outcome" where
  "execute_tool env user_input tool_name arguments =
     (case call_tool env tool_name arguments of
        Inl e \<Rightarrow>
          ([PrintToolRequest tool_name arguments, CallTool tool_name arguments,
            PrintToolError tool_name e], AwaitingInput)
      | Inr tool_result \<Rightarrow>
          (let tool_text = extract_tool_result_text env tool_result in
           case chat_followup env user_input tool_name tool_text of
             Inl e \<Rightarrow>
               ([PrintToolRequest tool_name arguments, CallTool tool_name arguments,
                 PrintToolResult tool_name tool_text,
                 ChatFollowup user_input tool_name tool_text], Raised e)
           | Inr second_response \<Rightarrow>
               ([PrintToolRequest tool_name arguments, CallTool tool_name arguments,
                 PrintToolResult tool_name tool_text,
                 ChatFollowup user_input tool_name tool_text,
                 PrintFinalAnswer (text_from_message (repr_json env) second_response)],
                AwaitingInput)))"

text \<open>Lines 145--211: what the loop does with the parsed JSON value.\<close>

definition handle_parsed :: "environment \<Rightarrow> string \<Rightarrow> json \<Rightarrow> event list \<times> outcome" where
  "handle_parsed env user_input obj =
     (case obj of
        JObj d \<Rightarrow>
          (case (map_of d ''answer'', map_of d ''tool'') of
             (Some answer, None) \<Rightarrow> ([PrintAnswer answer], AwaitingInput)
           | (_, Some tool_name) \<Rightarrow>
               (case (if tool_name = JStr ''edit_document''
                      then normalize_edit_arguments (get_arguments d)
                      else Inr (get_arguments d)) of
                  Inl e \<Rightarrow> ([], Raised e)
                | Inr arguments \<Rightarrow> execute_tool env user_input tool_name arguments)
           | (None, None) \<Rightarrow> ([PrintUnrecognized obj], AwaitingInput))
      | _ \<Rightarrow> ([PrintUnrecognized obj], AwaitingInput))"

text \<open>
  Lines 131--143 and on: from the model's reply text to the end of the turn.  The
  \<open>except\<close> clause of line 137 names \<open>json.JSONDecodeError\<close> only; any other exception of
  \<open>json.loads\<close> leaves the loop.
\<close>

definition handle_reply :: "environment \<Rightarrow> string \<Rightarrow> string \<Rightarrow> event list \<times> outcome" where
  "handle_reply env user_input raw_text =
     (let clean_text = extract_json_from_text raw_text in
      case json_loads env clean_text of
        Inl e \<Rightarrow>
          if e = JSONDecodeError
          then ([PrintInvalidJson raw_text clean_text], AwaitingInput)
          else ([], Raised e)
      | Inr obj \<Rightarrow> handle_parsed env user_input obj)"

text \<open>Lines 123--129: the first model call, then the rest of the turn.\<close>

definition process_turn :: "environment \<Rightarrow> string \<Rightarrow> event list \<times> outcome" where
  "process_turn env user_input =
     (case chat_decide env user_input of
        Inl e \<Rightarrow> ([ChatDecide user_input], Raised e)
      | Inr first_response \<Rightarrow>
          (let raw_text = text_from_message (repr_json env) first_response;
               (events, out) = handle_reply env user_input raw_text
           in (ChatDecide user_input # events, out)))"

section \<open>The document store (\<open>mcp_server.py\<close>)\<close>

text \<open>
  \<open>s.replace(old, new)\<close>: every occurrence of \<open>old\<close>, found from the left and without
  overlap, becomes \<open>new\<close>; an empty \<open>old\<close> matches before every character and at the end.
\<close>

function py_replace :: "string \<Rightarrow> string \<Rightarrow> string \<Rightarrow> string" where
  "py_replace s old new =
     (case s of
        [] \<Rightarrow> (if old = [] then new else [])
      | c # cs \<Rightarrow>
          if old = [] then new @ c # py_replace cs old new
          else if starts_with s old then new @ py_replace (drop (length old) s) old new
          else c # py_replace cs old new)"
  by pat_completeness auto
termination
  by (relation "measure (\<lambda>(s, old, new). length s)") auto

text \<open>
  The tool \<open>edit_document\<close> on the store \<open>docs\<close>: the result is the returned text or the
  raised \<open>ValueError\<close>, together with the store afterwards.
\<close>

definition edit_document ::
  "(string \<rightharpoonup> string) \<Rightarrow> string \<Rightarrow> string \<Rightarrow> string \<Rightarrow> (py_error + string) \<times> (string \<rightharpoonup> string)" where
  "edit_document docs doc_id old_str new_str =
     (case docs doc_id of
        None \<Rightarrow> (Inl (ValueError (''Doc with id '' @ doc_id @ '' not found'')), docs)
      | Some text \<Rightarrow>
          (let text' = py_replace text old_str new_str
           in (Inr text', docs(doc_id \<mapsto> text'))))"

section \<open>Notions used in the statements\<close>

subsection \<open>Patterns\<close>

text \<open>
  The language of a pattern, stated without reference to the matcher: \<open>rx_sem a g u g'\<close>
  holds when \<open>a\<close> matches exactly the text \<open>u\<close>, turning the captured group \<open>g\<close> into
  \<open>g'\<close>.
\<close>

fun rx_sem :: "rx \<Rightarrow> string option \<Rightarrow> string \<Rightarrow> string option \<Rightarrow> bool" where
  "rx_sem (Lit w) g u g' = (u = w \<and> g' = g)"
| "rx_sem (StarG k) g u g' = (list_all (in_class k) u \<and> g' = g)"
| "rx_sem (StarL k) g u g' = (list_all (in_class k) u \<and> g' = g)"
| "rx_sem (Seq a b) g u g' = (\<exists>u1 u2 g1. u = u1 @ u2 \<and> rx_sem a g u1 g1 \<and> rx_sem b g1 u2 g')"
| "rx_sem (Grp a) g u g' = (\<exists>g1. rx_sem a g u g1 \<and> g' = Some u)"

text \<open>
  The two fence patterns differ only in the literal they start with.
\<close>

definition fence_rx :: "string \<Rightarrow> rx" where
  "fence_rx w =
     Seq (Lit w) (Seq (StarG Space)
       (Seq (Grp (Seq (Lit ''{'') (Seq (StarG AnyChar) (Lit ''}''))))
         (Seq (StarG Space) (Lit ''```''))))"

text \<open>
  A brace-delimited object: a text that starts with an opening and ends with a closing
  brace.
\<close>

definition brace_object :: "string \<Rightarrow> bool" where
  "brace_object b \<longleftrightarrow> (\<exists>inner. b = ''{'' @ inner @ ''}'')"

text \<open>
  What the fence patterns match.  \<open>fence_span tag body text\<close>: somewhere in \<open>text\<close> stand
  three backquotes and the tag, whitespace, \<open>body\<close>, whitespace and three backquotes.  The
  untagged pattern is the one with the empty tag.  Nothing keeps further fences out of
  \<open>body\<close>: a span may run from the opening fence of one block to the closing fence of
  a later one.
\<close>

definition fence_span :: "string \<Rightarrow> string \<Rightarrow> string \<Rightarrow> bool" where
  "fence_span tag body text \<longleftrightarrow>
     (\<exists>pre ws1 ws2 post.
        text = pre @ ''```'' @ tag @ ws1 @ body @ ws2 @ ''```'' @ post \<and>
        list_all isspace ws1 \<and> list_all isspace ws2)"

text \<open>
  The text has a span with this tag whose body starts and ends with a brace.
\<close>

definition has_fence_span :: "string \<Rightarrow> string \<Rightarrow> bool" where
  "has_fence_span tag text \<longleftrightarrow> (\<exists>b. brace_object b \<and> fence_span tag b text)"

text \<open>
  The matches of \<open>.*?\[/THINK\]\<close>, in the matcher's order.
\<close>

definition closers :: "string \<Rightarrow> mstate list" where
  "closers s = rx_match (Seq (StarL AnyChar) (Lit ''[/THINK]'')) (None, s)"

text \<open>
  A matched pair of markers: an opening marker with a closing marker somewhere after it.
\<close>

definition has_think_pair :: "string \<Rightarrow> bool" where
  "has_think_pair s \<longleftrightarrow> (\<exists>a b c. s = a @ ''[THINK]'' @ b @ ''[/THINK]'' @ c)"

subsection \<open>Normalization on a dict\<close>

text \<open>
  The renaming of lines 160--171 when \<open>arguments\<close> is a dict, one canonical parameter at
  a time: a canonical key that is present stops the search; otherwise the first alias
  present, in the order of the \<open>if\<close>/\<open>elif\<close> chain, is removed and its value stored under
  the canonical key.
\<close>

fun rename_first_alias :: "string \<Rightarrow> string list \<Rightarrow> dict \<Rightarrow> dict" where
  "rename_first_alias canon [] d = d"
| "rename_first_alias canon (a # as) d =
     (case map_of d a of
        Some v \<Rightarrow> AList.update canon v (AList.delete a d)
      | None \<Rightarrow> rename_first_alias canon as d)"

definition normalize_canonical :: "string \<Rightarrow> string list \<Rightarrow> dict \<Rightarrow> dict" where
  "normalize_canonical canon as d =
     (if map_of d canon \<noteq> None then d else rename_first_alias canon as d)"

definition normalize_dict :: "dict \<Rightarrow> dict" where
  "normalize_dict d =
     normalize_canonical ''new_str'' [''new_string'', ''new_striing'', ''new'']
       (normalize_canonical ''old_str'' [''old_string'', ''old''] d)"

text \<open>
  The two halves of \<open>normalize_edit_arguments\<close>: the block for \<open>old_str\<close> and the block
  for \<open>new_str\<close>.
\<close>

definition old_part :: "json \<Rightarrow> py_error + json" where
  "old_part arguments =
     bindE (py_in ''old_str'' arguments) (\<lambda>has_old.
       if \<not> has_old then
              bindE (py_in ''old_string'' arguments) (\<lambda>c1.
                if c1 then py_rename ''old_str'' ''old_string'' arguments
                else bindE (py_in ''old'' arguments) (\<lambda>c2.
                  if c2 then py_rename ''old_str'' ''old'' arguments
                  else Inr arguments))
            else Inr arguments)"

definition new_part :: "json \<Rightarrow> py_error + json" where
  "new_part arguments =
     bindE (py_in ''new_str'' arguments) (\<lambda>has_new.
       if \<not> has_new then
         bindE (py_in ''new_string'' arguments) (\<lambda>c1.
           if c1 then py_rename ''new_str'' ''new_string'' arguments
           else bindE (py_in ''new_striing'' arguments) (\<lambda>c2.
             if c2 then py_rename ''new_str'' ''new_striing'' arguments
             else bindE (py_in ''new'' arguments) (\<lambda>c3.
               if c3 then py_rename ''new_str'' ''new'' arguments
               else Inr arguments)))
       else Inr arguments)"

text \<open>
  The alias keys, and how many of the names \<open>ks\<close> the model supplied in \<open>d\<close>.
\<close>

definition alias_keys :: "string list" where
  "alias_keys = [''old_string'', ''old'', ''new_string'', ''new_striing'', ''new'']"

definition supplied :: "dict \<Rightarrow> string list \<Rightarrow> nat" where
  "supplied d ks = length (filter (\<lambda>k. map_of d k \<noteq> None) ks)"

subsection \<open>Events of a turn\<close>

text \<open>
  Events that invoke a tool, events that make the follow-up model call, and how many of
  each a turn has.
\<close>

fun is_tool_call :: "event \<Rightarrow> bool" where
  "is_tool_call (CallTool n a) = True"
| "is_tool_call _ = False"

fun is_followup :: "event \<Rightarrow> bool" where
  "is_followup (ChatFollowup u n t) = True"
| "is_followup _ = False"

definition tool_calls :: "event list \<Rightarrow> nat" where
  "tool_calls evs = length (filter is_tool_call evs)"

definition followups :: "event list \<Rightarrow> nat" where
  "followups evs = length (filter is_followup evs)"

text \<open>
  A stretch of a turn with no tool call and no follow-up model call.
\<close>

definition quiet :: "event list \<Rightarrow> bool" where
  "quiet evs \<longleftrightarrow> tool_calls evs = 0 \<and> followups evs = 0"

text \<open>
  The three courses a turn can take: no tool is called; the one tool call raises and the
  failure is the last thing reported; the one tool call returns and one follow-up model
  call is made.
\<close>

definition turn_shape :: "environment \<Rightarrow> string \<Rightarrow> event list \<Rightarrow> outcome \<Rightarrow> bool" where
  "turn_shape env u evs out \<longleftrightarrow>
     quiet evs \<or>
     (\<exists>pre n a e. quiet pre \<and> call_tool env n a = Inl e \<and> out = AwaitingInput \<and>
        evs = pre @ [PrintToolRequest n a, CallTool n a, PrintToolError n e]) \<or>
     (\<exists>pre n a r rest. quiet pre \<and> quiet rest \<and> call_tool env n a = Inr r \<and>
        evs = pre @ [PrintToolRequest n a, CallTool n a,
                     PrintToolResult n (extract_tool_result_text env r),
                     ChatFollowup u n (extract_tool_result_text env r)] @ rest)"

text \<open>
  The structured payload is a mapping with a \<open>"result"\<close> field holding \<open>v\<close>.
\<close>

definition result_field :: "json option \<Rightarrow> json \<Rightarrow> bool" where
  "result_field sc v \<longleftrightarrow> (\<exists>d. sc = Some (JObj d) \<and> map_of d ''result'' = Some v)"

subsection \<open>Environments for concrete runs\<close>

text \<open>
  In \<open>failing_env\<close> nothing parses and the tool provider rejects every call.  In
  \<open>scripted_env obj res\<close> every reply parses to \<open>obj\<close>, every tool call has the outcome
  \<open>res\<close>, and the follow-up model call answers with the tool's text.
\<close>

definition failing_env :: environment where
  "failing_env =
     \<lparr> json_loads = (\<lambda>s. Inl JSONDecodeError),
       repr_json = (\<lambda>v. ''?''),
       repr_content = (\<lambda>c. ''?''),
       repr_result = (\<lambda>r. ''?''),
       chat_decide = (\<lambda>u. Inr \<lparr> content = ContentStr u, stop_reason = ''end'' \<rparr>),
       call_tool = (\<lambda>n a. Inl (ToolError ''Unknown tool'')),
       chat_followup = (\<lambda>u n t. Inr \<lparr> content = ContentStr t, stop_reason = ''end'' \<rparr>) \<rparr>"

definition scripted_env :: "json \<Rightarrow> py_error + tool_result \<Rightarrow> environment" where
  "scripted_env obj res =
     \<lparr> json_loads = (\<lambda>s. Inr obj),
       repr_json = (\<lambda>v. ''?''),
       repr_content = (\<lambda>c. ''?''),
       repr_result = (\<lambda>r. ''?''),
       chat_decide = (\<lambda>u. Inr \<lparr> content = ContentStr u, stop_reason = ''end'' \<rparr>),
       call_tool = (\<lambda>n a. res),
       chat_followup = (\<lambda>u n t. Inr \<lparr> content = ContentStr t, stop_reason = ''end'' \<rparr>) \<rparr>"

section \<open>What a pattern matches\<close>

lemma lit_match_iff: "lit_match w s = Some r \<longleftrightarrow> s = w @ r"
  by (induction w s rule: lit_match.induct) auto

lemma star_greedy_set: "r \<in> set (star_greedy P s) \<longleftrightarrow> (\<exists>u. s = u @ r \<and> list_all P u)"
proof (induction s)
  case Nil
  then show ?case by auto
next
  case (Cons c s)
  show ?case
  proof (cases "P c")
    case True
    have "(\<exists>u. c # s = u @ r \<and> list_all P u) \<longleftrightarrow> (r = c # s \<or> (\<exists>u. s = u @ r \<and> list_all P u))"
      using True by (auto simp: Cons_eq_append_conv)
    then show ?thesis using True Cons.IH by auto
  next
    case False
    have "(\<exists>u. c # s = u @ r \<and> list_all P u) \<longleftrightarrow> r = c # s"
      using False by (auto simp: Cons_eq_append_conv)
    then show ?thesis using False by auto
  qed
qed

lemma star_lazy_set: "r \<in> set (star_lazy P s) \<longleftrightarrow> (\<exists>u. s = u @ r \<and> list_all P u)"
proof (induction s)
  case Nil
  then show ?case by auto
next
  case (Cons c s)
  show ?case
  proof (cases "P c")
    case True
    have "(\<exists>u. c # s = u @ r \<and> list_all P u) \<longleftrightarrow> (r = c # s \<or> (\<exists>u. s = u @ r \<and> list_all P u))"
      using True by (auto simp: Cons_eq_append_conv)
    then show ?thesis using True Cons.IH by auto
  next
    case False
    have "(\<exists>u. c # s = u @ r \<and> list_all P u) \<longleftrightarrow> r = c # s"
      using False by (auto simp: Cons_eq_append_conv)
    then show ?thesis using False by auto
  qed
qed

lemma rx_match_iff:
  "(g', r) \<in> set (rx_match a (g, s)) \<longleftrightarrow> (\<exists>u. s = u @ r \<and> rx_sem a g u g')"
proof (induction a arbitrary: g s g' r)
  case (Lit w)
  have "\<And>r. (Some r = lit_match w s) = (s = w @ r)"
    using lit_match_iff[of w s] by (metis)
  then show ?case by (auto simp: lit_match_iff split: option.splits)
next
  case (StarG k)
  show ?case by (auto simp: star_greedy_set)
next
  case (StarL k)
  show ?case by (auto simp: star_lazy_set)
next
  case (Seq a b)
  have "(g', r) \<in> set (rx_match (Seq a b) (g, s)) \<longleftrightarrow>
        (\<exists>g1 s1. (g1, s1) \<in> set (rx_match a (g, s)) \<and> (g', r) \<in> set (rx_match b (g1, s1)))"
    by auto
  also have "\<dots> \<longleftrightarrow> (\<exists>g1 s1. (\<exists>u1. s = u1 @ s1 \<and> rx_sem a g u1 g1) \<and>
                               (\<exists>u2. s1 = u2 @ r \<and> rx_sem b g1 u2 g'))"
    by (simp only: Seq.IH)
  also have "\<dots> \<longleftrightarrow> (\<exists>u. s = u @ r \<and> rx_sem (Seq a b) g u g')"
  proof (intro iffI)
    assume "\<exists>g1 s1. (\<exists>u1. s = u1 @ s1 \<and> rx_sem a g u1 g1) \<and>
                               (\<exists>u2. s1 = u2 @ r \<and> rx_sem b g1 u2 g')"
    then obtain g1 s1 u1 u2 where "s = u1 @ s1" "rx_sem a g u1 g1" "s1 = u2 @ r" "rx_sem b g1 u2 g'"
      by blast
    then have "s = (u1 @ u2) @ r \<and> rx_sem (Seq a b) g (u1 @ u2) g'"
      by auto
    then show "\<exists>u. s = u @ r \<and> rx_sem (Seq a b) g u g'" by blast
  next
    assume "\<exists>u. s = u @ r \<and> rx_sem (Seq a b) g u g'"
    then obtain u1 u2 g1 where "s = (u1 @ u2) @ r" "rx_sem a g u1 g1" "rx_sem b g1 u2 g'"
      by auto
    then have "(\<exists>u1'. s = u1' @ (u2 @ r) \<and> rx_sem a g u1' g1) \<and>
               (\<exists>u2'. u2 @ r = u2' @ r \<and> rx_sem b g1 u2' g')"
      by auto
    then show "\<exists>g1 s1. (\<exists>u1. s = u1 @ s1 \<and> rx_sem a g u1 g1) \<and>
                               (\<exists>u2. s1 = u2 @ r \<and> rx_sem b g1 u2 g')"
      by blast
  qed
  finally show ?case .
next
  case (Grp a)
  have "(g', r) \<in> set (rx_match (Grp a) (g, s)) \<longleftrightarrow>
        (\<exists>g1. (g1, r) \<in> set (rx_match a (g, s)) \<and> g' = Some (take (length s - length r) s))"
    by (force simp: image_iff)
  also have "\<dots> \<longleftrightarrow> (\<exists>g1. (\<exists>u. s = u @ r \<and> rx_sem a g u g1) \<and> g' = Some (take (length s - length r) s))"
    by (simp only: Grp.IH)
  also have "\<dots> \<longleftrightarrow> (\<exists>u. s = u @ r \<and> rx_sem (Grp a) g u g')"
    by auto
  finally show ?case .
qed

lemma re_search_None:
  "re_search r s = None \<longleftrightarrow> (\<forall>pre t. s = pre @ t \<longrightarrow> rx_match r (None, t) = [])"
proof (induction s)
  case Nil
  then show ?case by (auto split: list.splits)
next
  case (Cons c s)
  have "(\<forall>pre t. c # s = pre @ t \<longrightarrow> rx_match r (None, t) = []) \<longleftrightarrow>
        rx_match r (None, c # s) = [] \<and> (\<forall>pre t. s = pre @ t \<longrightarrow> rx_match r (None, t) = [])"
    by (auto simp: Cons_eq_append_conv)
  then show ?case using Cons.IH by (auto split: list.splits)
qed

lemma re_search_Some:
  "re_search r s = Some m \<Longrightarrow> \<exists>pre t. s = pre @ t \<and> m \<in> set (rx_match r (None, t))"
proof (induction s)
  case Nil
  then show ?case by (auto split: list.splits)
next
  case (Cons c s)
  show ?case
  proof (cases "rx_match r (None, c # s)")
    case Nil
    with Cons.prems have "re_search r s = Some m" by simp
    from Cons.IH[OF this] obtain pre t where "s = pre @ t" "m \<in> set (rx_match r (None, t))" by blast
    then have "c # s = (c # pre) @ t \<and> m \<in> set (rx_match r (None, t))" by simp
    then show ?thesis by blast
  next
    case (Cons m' ms)
    with Cons.prems have "m = m'" by simp
    with Cons have "c # s = [] @ (c # s) \<and> m \<in> set (rx_match r (None, c # s))" by simp
    then show ?thesis by blast
  qed
qed

section \<open>Fenced blocks and the extraction order\<close>

lemma list_all_any [simp]: "list_all (in_class AnyChar) u"
  by (induction u) auto

lemma in_class_Space [simp]: "in_class Space = isspace"
  by (rule ext) simp

lemma rx_sem_SeqI:
  "rx_sem a g u1 g1 \<Longrightarrow> rx_sem b g1 u2 g' \<Longrightarrow> rx_sem (Seq a b) g (u1 @ u2) g'"
  by auto

lemma body_sem:
  "rx_sem (Grp (Seq (Lit ''{'') (Seq (StarG AnyChar) (Lit ''}'')))) g u g' \<longleftrightarrow>
     (\<exists>inner. u = ''{'' @ inner @ ''}'') \<and> g' = Some u"
  by auto

lemma tail_sem:
  "rx_sem (Seq (StarG Space) (Lit ''```'')) g u g' \<longleftrightarrow>
     (\<exists>ws. u = ws @ ''```'' \<and> list_all isspace ws) \<and> g' = g"
  by auto

lemma fence_sem:
  "rx_sem (fence_rx w) g u g' \<longleftrightarrow>
     (\<exists>ws1 inner ws2. u = w @ ws1 @ (''{'' @ inner @ ''}'') @ ws2 @ ''```'' \<and>
        list_all isspace ws1 \<and> list_all isspace ws2 \<and> g' = Some (''{'' @ inner @ ''}''))"
  (is "?L \<longleftrightarrow> ?R")
proof
  assume ?L
  then obtain u1 r1 g1 where 1: "u = u1 @ r1" "rx_sem (Lit w) g u1 g1"
    and r1: "rx_sem (Seq (StarG Space)
       (Seq (Grp (Seq (Lit ''{'') (Seq (StarG AnyChar) (Lit ''}''))))
         (Seq (StarG Space) (Lit ''```'')))) g1 r1 g'"
    unfolding fence_rx_def rx_sem.simps(4)[of "Lit w"] by blast
  from r1 obtain u2 r2 g2 where 2: "r1 = u2 @ r2" "rx_sem (StarG Space) g1 u2 g2"
    and r2: "rx_sem (Seq (Grp (Seq (Lit ''{'') (Seq (StarG AnyChar) (Lit ''}''))))
         (Seq (StarG Space) (Lit ''```''))) g2 r2 g'"
    unfolding rx_sem.simps(4)[of "StarG Space"] by blast
  from r2 obtain u3 r3 g3 where 3: "r2 = u3 @ r3"
    "rx_sem (Grp (Seq (Lit ''{'') (Seq (StarG AnyChar) (Lit ''}'')))) g2 u3 g3"
    and r3: "rx_sem (Seq (StarG Space) (Lit ''```'')) g3 r3 g'"
    unfolding rx_sem.simps(4)[of "Grp (Seq (Lit ''{'') (Seq (StarG AnyChar) (Lit ''}'')))"]
    by blast
  from 3(2) obtain inner where u3: "u3 = ''{'' @ inner @ ''}''" "g3 = Some u3"
    unfolding body_sem by blast
  from r3 obtain ws2 where ws2: "r3 = ws2 @ ''```''" "list_all isspace ws2" "g' = g3"
    unfolding tail_sem by blast
  from 1(2) have "u1 = w" by simp
  moreover from 2(2) have "list_all isspace u2" by simp
  ultimately have "u = w @ u2 @ (''{'' @ inner @ ''}'') @ ws2 @ ''```'' \<and>
        list_all isspace u2 \<and> list_all isspace ws2 \<and> g' = Some (''{'' @ inner @ ''}'')"
    using 1(1) 2(1) 3(1) u3 ws2 by simp
  then show ?R by blast
next
  assume ?R
  then obtain ws1 inner ws2 where u: "u = w @ ws1 @ (''{'' @ inner @ ''}'') @ ws2 @ ''```''"
    and ws: "list_all isspace ws1" "list_all isspace ws2"
    and g': "g' = Some (''{'' @ inner @ ''}'')" by blast
  have a: "rx_sem (Seq (StarG Space) (Lit ''```'')) g' (ws2 @ ''```'') g'"
    unfolding tail_sem using ws by blast
  have b: "rx_sem (Grp (Seq (Lit ''{'') (Seq (StarG AnyChar) (Lit ''}'')))) g (''{'' @ inner @ ''}'') g'"
    unfolding body_sem using g' by blast
  have w: "rx_sem (Lit w) g w g" by simp
  have s1: "rx_sem (StarG Space) g ws1 g" using ws(1) by simp
  have "rx_sem (fence_rx w) g (w @ ws1 @ (''{'' @ inner @ ''}'') @ ws2 @ ''```'') g'"
    unfolding fence_rx_def
    by (rule rx_sem_SeqI[OF w rx_sem_SeqI[OF s1 rx_sem_SeqI[OF b a]]])
  then show ?L using u by simp
qed

lemma fence_match_iff:
  "(\<exists>m. m \<in> set (rx_match (fence_rx (''```'' @ tag)) (None, t)) \<and> group1 m = b) \<longleftrightarrow>
   (\<exists>ws1 ws2 post. t = ''```'' @ tag @ ws1 @ b @ ws2 @ ''```'' @ post \<and>
      list_all isspace ws1 \<and> list_all isspace ws2 \<and> brace_object b)"
  (is "?L \<longleftrightarrow> ?R")
proof
  assume ?L
  then obtain g' r where m: "(g', r) \<in> set (rx_match (fence_rx (''```'' @ tag)) (None, t))"
    and b: "group1 (g', r) = b" by auto
  from m obtain u where "t = u @ r" "rx_sem (fence_rx (''```'' @ tag)) None u g'"
    unfolding rx_match_iff by blast
  then obtain ws1 inner ws2 where
    u: "u = (''```'' @ tag) @ ws1 @ (''{'' @ inner @ ''}'') @ ws2 @ ''```''"
    and ws: "list_all isspace ws1" "list_all isspace ws2"
    and g': "g' = Some (''{'' @ inner @ ''}'')"
    unfolding fence_sem by blast
  from b g' have "b = ''{'' @ inner @ ''}''" by (simp add: group1_def)
  with u ws \<open>t = u @ r\<close> have
    "t = ''```'' @ tag @ ws1 @ b @ ws2 @ ''```'' @ r \<and>
      list_all isspace ws1 \<and> list_all isspace ws2 \<and> brace_object b"
    unfolding brace_object_def by auto
  then show ?R by blast
next
  assume ?R
  then obtain ws1 ws2 post inner where
    t: "t = ''```'' @ tag @ ws1 @ b @ ws2 @ ''```'' @ post"
    and ws: "list_all isspace ws1" "list_all isspace ws2"
    and b: "b = ''{'' @ inner @ ''}''"
    unfolding brace_object_def by blast
  have "rx_sem (fence_rx (''```'' @ tag)) None
          ((''```'' @ tag) @ ws1 @ (''{'' @ inner @ ''}'') @ ws2 @ ''```'') (Some b)"
    unfolding fence_sem using ws b by blast
  moreover have "t = ((''```'' @ tag) @ ws1 @ (''{'' @ inner @ ''}'') @ ws2 @ ''```'') @ post"
    using t b by simp
  ultimately have "(Some b, post) \<in> set (rx_match (fence_rx (''```'' @ tag)) (None, t))"
    unfolding rx_match_iff by blast
  moreover have "group1 (Some b, post) = b" by (simp add: group1_def)
  ultimately show ?L by blast
qed

lemma search_fence_None:
  "re_search (fence_rx (''```'' @ tag)) s = None \<longleftrightarrow>
     \<not> (\<exists>b. brace_object b \<and> fence_span tag b s)"
proof -
  have "(\<exists>b. brace_object b \<and> fence_span tag b s) \<longleftrightarrow>
        (\<exists>pre t b. s = pre @ t \<and> (\<exists>ws1 ws2 post. t = ''```'' @ tag @ ws1 @ b @ ws2 @ ''```'' @ post \<and>
            list_all isspace ws1 \<and> list_all isspace ws2 \<and> brace_object b))"
    unfolding fence_span_def by blast
  also have "\<dots> \<longleftrightarrow> (\<exists>pre t b. s = pre @ t \<and>
        (\<exists>m. m \<in> set (rx_match (fence_rx (''```'' @ tag)) (None, t)) \<and> group1 m = b))"
    by (simp only: fence_match_iff)
  also have "\<dots> \<longleftrightarrow> (\<exists>pre t. s = pre @ t \<and> rx_match (fence_rx (''```'' @ tag)) (None, t) \<noteq> [])"
  proof -
    have "\<And>t. (\<exists>b m. m \<in> set (rx_match (fence_rx (''```'' @ tag)) (None, t)) \<and> group1 m = b) \<longleftrightarrow>
        rx_match (fence_rx (''```'' @ tag)) (None, t) \<noteq> []"
      by (metis ex_in_conv set_empty)
    then show ?thesis by blast
  qed
  finally show ?thesis unfolding re_search_None by blast
qed

lemma search_fence_Some:
  assumes "re_search (fence_rx (''```'' @ tag)) s = Some m"
  shows "brace_object (group1 m) \<and> fence_span tag (group1 m) s"
proof -
  from re_search_Some[OF assms] obtain pre t where
    s: "s = pre @ t" and m: "m \<in> set (rx_match (fence_rx (''```'' @ tag)) (None, t))" by blast
  from m have "\<exists>m'. m' \<in> set (rx_match (fence_rx (''```'' @ tag)) (None, t)) \<and> group1 m' = group1 m"
    by blast
  then obtain ws1 ws2 post where
    "t = ''```'' @ tag @ ws1 @ group1 m @ ws2 @ ''```'' @ post"
    "list_all isspace ws1" "list_all isspace ws2" "brace_object (group1 m)"
    unfolding fence_match_iff by blast
  with s show ?thesis unfolding fence_span_def by blast
qed

lemma not_isspace_chars [simp]:
  "\<not> isspace CHR ''{''" "\<not> isspace CHR ''}''" "\<not> isspace CHR 0x60"
  by (simp_all add: isspace_def)

lemma py_strip_ends:
  "\<not> isspace c \<Longrightarrow> \<not> isspace d \<Longrightarrow> py_strip (c # mid @ [d]) = c # mid @ [d]"
  by (simp add: py_strip_def)

lemma py_strip_brace_object: "brace_object b \<Longrightarrow> py_strip b = b"
  unfolding brace_object_def using py_strip_ends[of "CHR ''{''" "CHR ''}''"] by auto

lemma dropWhile_keeps: "\<not> P c \<Longrightarrow> dropWhile P (pre @ c # rest) = dropWhile P pre @ c # rest"
  by (induction pre) auto

lemma py_strip_keeps:
  assumes "\<not> isspace c" "\<not> isspace d"
  shows "py_strip (pre @ c # mid @ d # post) =
           dropWhile isspace pre @ c # mid @ d # rev (dropWhile isspace (rev post))"
proof -
  have "dropWhile isspace (pre @ c # mid @ d # post) = dropWhile isspace pre @ c # mid @ d # post"
    using assms(1) by (rule dropWhile_keeps)
  moreover have "rev (dropWhile isspace pre @ c # mid @ d # post) =
      rev post @ d # (rev mid @ c # rev (dropWhile isspace pre))" by simp
  moreover have "dropWhile isspace (rev post @ d # (rev mid @ c # rev (dropWhile isspace pre))) =
      dropWhile isspace (rev post) @ d # (rev mid @ c # rev (dropWhile isspace pre))"
    using assms(2) by (rule dropWhile_keeps)
  ultimately show ?thesis by (simp add: py_strip_def)
qed

lemma py_strip_infix: "\<exists>l r. text = l @ py_strip text @ r"
proof -
  let ?x = "dropWhile isspace text"
  have "?x = rev (dropWhile isspace (rev ?x)) @ rev (takeWhile isspace (rev ?x))"
    by (metis rev_append rev_rev_ident takeWhile_dropWhile_id)
  then have "?x = py_strip text @ rev (takeWhile isspace (rev ?x))"
    by (simp add: py_strip_def)
  moreover have "text = takeWhile isspace text @ ?x" by simp
  ultimately have "text = takeWhile isspace text @ py_strip text @ rev (takeWhile isspace (rev ?x))"
    by metis
  then show ?thesis by blast
qed

lemma fence_span_strip: "fence_span tag b (py_strip text) \<longleftrightarrow> fence_span tag b text"
proof
  assume "fence_span tag b (py_strip text)"
  then obtain pre ws1 ws2 post where
    "py_strip text = pre @ ''```'' @ tag @ ws1 @ b @ ws2 @ ''```'' @ post"
    "list_all isspace ws1" "list_all isspace ws2"
    unfolding fence_span_def by blast
  moreover obtain l r where "text = l @ py_strip text @ r" using py_strip_infix by blast
  ultimately have "text = (l @ pre) @ ''```'' @ tag @ ws1 @ b @ ws2 @ ''```'' @ (post @ r) \<and>
    list_all isspace ws1 \<and> list_all isspace ws2" by simp
  then show "fence_span tag b text" unfolding fence_span_def by blast
next
  assume "fence_span tag b text"
  then obtain pre ws1 ws2 post where
    t: "text = pre @ ''```'' @ tag @ ws1 @ b @ ws2 @ ''```'' @ post"
    and ws: "list_all isspace ws1" "list_all isspace ws2"
    unfolding fence_span_def by blast
  let ?mid = "''``'' @ tag @ ws1 @ b @ ws2 @ ''``''"
  have "text = pre @ CHR 0x60 # ?mid @ CHR 0x60 # post" using t by simp
  then have "py_strip text =
      dropWhile isspace pre @ CHR 0x60 # ?mid @ CHR 0x60 # rev (dropWhile isspace (rev post))"
    using py_strip_keeps[of "CHR 0x60" "CHR 0x60" pre ?mid post] by simp
  then have "py_strip text = dropWhile isspace pre @ ''```'' @ tag @ ws1 @ b @ ws2 @ ''```'' @
      rev (dropWhile isspace (rev post))" by simp
  with ws show "fence_span tag b (py_strip text)" unfolding fence_span_def by blast
qed

lemma json_fence_rx_eq: "json_fence_rx = fence_rx (''```'' @ ''json'')"
  by (simp add: json_fence_rx_def fence_rx_def)

lemma any_fence_rx_eq: "any_fence_rx = fence_rx (''```'' @ [])"
  by (simp add: any_fence_rx_def fence_rx_def)

lemma extract_json_cases:
  "(has_fence_span ''json'' text \<longrightarrow>
      brace_object (extract_json_from_text text) \<and>
      fence_span ''json'' (extract_json_from_text text) text) \<and>
   (\<not> has_fence_span ''json'' text \<and> has_fence_span [] text \<longrightarrow>
      brace_object (extract_json_from_text text) \<and>
      fence_span [] (extract_json_from_text text) text) \<and>
   (\<not> has_fence_span ''json'' text \<and> \<not> has_fence_span [] text \<longrightarrow>
      extract_json_from_text text = py_strip text)"
proof -
  let ?s = "py_strip text"
  have none: "re_search json_fence_rx ?s = None \<longleftrightarrow> \<not> has_fence_span ''json'' text"
    "re_search any_fence_rx ?s = None \<longleftrightarrow> \<not> has_fence_span [] text"
    unfolding json_fence_rx_eq any_fence_rx_eq search_fence_None has_fence_span_def
      fence_span_strip by simp_all
  have some: "brace_object (py_strip (group1 m)) \<and> fence_span tag (py_strip (group1 m)) text"
    if "re_search (fence_rx (''```'' @ tag)) ?s = Some m" for m tag
  proof -
    from search_fence_Some[OF that]
    have "brace_object (group1 m)" "fence_span tag (group1 m) ?s" by simp_all
    then show ?thesis by (simp add: py_strip_brace_object fence_span_strip)
  qed
  show ?thesis
  proof (cases "re_search json_fence_rx ?s")
    case (Some m)
    then have "extract_json_from_text text = py_strip (group1 m)"
      by (simp add: extract_json_from_text_def)
    with some[of "''json''" m] none(1) Some show ?thesis by (simp add: json_fence_rx_eq)
  next
    case None
    note j = None
    show ?thesis
    proof (cases "re_search any_fence_rx ?s")
      case (Some m)
      then have "extract_json_from_text text = py_strip (group1 m)"
        using j by (simp add: extract_json_from_text_def)
      with some[of "[]" m] none j Some show ?thesis by (simp add: any_fence_rx_eq)
    next
      case None
      then have "extract_json_from_text text = py_strip text"
        using j by (simp add: extract_json_from_text_def)
      with none j None show ?thesis by simp
    qed
  qed
qed

lemma has_fence_span_search:
  "has_fence_span tag text \<longleftrightarrow> re_search (fence_rx (''```'' @ tag)) (py_strip text) \<noteq> None"
  unfolding search_fence_None has_fence_span_def fence_span_strip by simp

text \<open>
  Three more replies.  With two json-tagged blocks the greedy \<open>.*\<close> takes the body from
  the first opening brace to the last closing brace that a closing fence follows.  A
  json-tagged block whose body is not an object is passed over for an untagged one.  A
  json-tagged block is preferred to an untagged block that stands before it.
\<close>

lemma extract_json_more_blocks:
  "extract_json_from_text ''```json {\"a\": 1} ``` and ```json {\"b\": 2} ```'' =
     ''{\"a\": 1} ``` and ```json {\"b\": 2}'' \<and>
   extract_json_from_text ''```json [1] ``` ``` {\"b\": 2} ```'' = ''{\"b\": 2}'' \<and>
   extract_json_from_text ''``` {\"a\": 1} ``` ```json {\"b\": 2} ```'' = ''{\"b\": 2}''"
  by code_simp

section \<open>Normalization on a dict\<close>

lemma bindE_simps [simp]: "bindE (Inr x) f = f x" "bindE (Inl e) f = Inl e"
  by (simp_all add: bindE_def)

lemma bindE_assoc: "bindE (bindE m f) g = bindE m (\<lambda>x. bindE (f x) g)"
  by (cases m) simp_all

lemma normalize_edit_arguments_parts:
  "normalize_edit_arguments arguments = bindE (old_part arguments) new_part"
  unfolding normalize_edit_arguments_def old_part_def new_part_def bindE_assoc ..

lemma old_part_dict:
  "old_part (JObj d) = Inr (JObj (normalize_canonical ''old_str'' [''old_string'', ''old''] d))"
  by (cases "map_of d ''old_str''"; cases "map_of d ''old_string''"; cases "map_of d ''old''")
     (simp_all add: old_part_def normalize_canonical_def)

lemma new_part_dict:
  "new_part (JObj d) =
     Inr (JObj (normalize_canonical ''new_str'' [''new_string'', ''new_striing'', ''new''] d))"
  by (cases "map_of d ''new_str''"; cases "map_of d ''new_string''";
      cases "map_of d ''new_striing''"; cases "map_of d ''new''")
     (simp_all add: new_part_def normalize_canonical_def)

lemma normalize_edit_arguments_dict:
  "normalize_edit_arguments (JObj d) = Inr (JObj (normalize_dict d))"
  by (simp add: normalize_edit_arguments_parts old_part_dict new_part_dict normalize_dict_def)

lemma map_of_old:
  "map_of (normalize_canonical ''old_str'' [''old_string'', ''old''] d) =
     (case map_of d ''old_str'' of
        Some v \<Rightarrow> map_of d
      | None \<Rightarrow>
          (case map_of d ''old_string'' of
             Some v \<Rightarrow> (map_of d)(''old_string'' := None, ''old_str'' \<mapsto> v)
           | None \<Rightarrow>
               (case map_of d ''old'' of
                  Some v \<Rightarrow> (map_of d)(''old'' := None, ''old_str'' \<mapsto> v)
                | None \<Rightarrow> map_of d)))"
  by (simp add: normalize_canonical_def update_conv' delete_conv' split: option.splits)

lemma map_of_new:
  "map_of (normalize_canonical ''new_str'' [''new_string'', ''new_striing'', ''new''] d) =
     (case map_of d ''new_str'' of
        Some v \<Rightarrow> map_of d
      | None \<Rightarrow>
          (case map_of d ''new_string'' of
             Some v \<Rightarrow> (map_of d)(''new_string'' := None, ''new_str'' \<mapsto> v)
           | None \<Rightarrow>
               (case map_of d ''new_striing'' of
                  Some v \<Rightarrow> (map_of d)(''new_striing'' := None, ''new_str'' \<mapsto> v)
                | None \<Rightarrow>
                   (case map_of d ''new'' of
                      Some v \<Rightarrow> (map_of d)(''new'' := None, ''new_str'' \<mapsto> v)
                    | None \<Rightarrow> map_of d))))"
  by (simp add: normalize_canonical_def update_conv' delete_conv' split: option.splits)

text \<open>Every key the two steps touch, looked up after normalization.\<close>

lemma norm_old_str:
  "map_of (normalize_dict d) ''old_str'' =
     (case map_of d ''old_str'' of Some v \<Rightarrow> Some v
      | None \<Rightarrow> (case map_of d ''old_string'' of Some v \<Rightarrow> Some v | None \<Rightarrow> map_of d ''old''))"
  by (simp add: normalize_dict_def map_of_new map_of_old split: option.splits)

lemma norm_new_str:
  "map_of (normalize_dict d) ''new_str'' =
     (case map_of d ''new_str'' of Some v \<Rightarrow> Some v
      | None \<Rightarrow> (case map_of d ''new_string'' of Some v \<Rightarrow> Some v
         | None \<Rightarrow> (case map_of d ''new_striing'' of Some v \<Rightarrow> Some v | None \<Rightarrow> map_of d ''new'')))"
  by (simp add: normalize_dict_def map_of_new map_of_old split: option.splits)

lemma norm_old_string:
  "map_of (normalize_dict d) ''old_string'' =
     (if map_of d ''old_str'' = None then None else map_of d ''old_string'')"
  by (simp add: normalize_dict_def map_of_new map_of_old split: option.splits)

lemma norm_old:
  "map_of (normalize_dict d) ''old'' =
     (if map_of d ''old_str'' = None \<and> map_of d ''old_string'' = None then None
      else map_of d ''old'')"
  by (simp add: normalize_dict_def map_of_new map_of_old split: option.splits)

lemma norm_new_string:
  "map_of (normalize_dict d) ''new_string'' =
     (if map_of d ''new_str'' = None then None else map_of d ''new_string'')"
  by (simp add: normalize_dict_def map_of_new map_of_old split: option.splits)

lemma norm_new_striing:
  "map_of (normalize_dict d) ''new_striing'' =
     (if map_of d ''new_str'' = None \<and> map_of d ''new_string'' = None then None
      else map_of d ''new_striing'')"
  by (simp add: normalize_dict_def map_of_new map_of_old split: option.splits)

lemma norm_new:
  "map_of (normalize_dict d) ''new'' =
     (if map_of d ''new_str'' = None \<and> map_of d ''new_string'' = None \<and>
         map_of d ''new_striing'' = None then None
      else map_of d ''new'')"
  by (simp add: normalize_dict_def map_of_new map_of_old split: option.splits)

lemma norm_other:
  "k \<notin> set [''old_str'', ''old_string'', ''old'', ''new_str'', ''new_string'', ''new_striing'', ''new'']
   \<Longrightarrow> map_of (normalize_dict d) k = map_of d k"
  by (simp add: normalize_dict_def map_of_new map_of_old split: option.splits)

text \<open>
  Claim C1 as stated fails: an alias key stays when the canonical key is present too, and
  the lower-priority alias stays when two aliases of one canonical key are present.
\<close>

theorem alias_survives_counterexample:
  "normalize_edit_arguments (JObj [(''old_str'', JStr ''a''), (''old_string'', JStr ''b'')]) =
     Inr (JObj [(''old_str'', JStr ''a''), (''old_string'', JStr ''b'')]) \<and>
   normalize_edit_arguments (JObj [(''new_string'', JStr ''a''), (''new'', JStr ''b'')]) =
     Inr (JObj [(''new'', JStr ''b''), (''new_str'', JStr ''a'')])"
  by (simp add: normalize_edit_arguments_def)

text \<open>
  Claim C1, amended.  Normalization of a dict never raises.  Afterwards an alias key is
  present exactly when the model supplied it together with the canonical key or with a
  higher-priority alias of the same canonical key; so no alias key remains when the model
  supplied at most one name for each of the two canonical parameters.
\<close>

theorem alias_survives_exactly:
  "\<exists>d'. normalize_edit_arguments (JObj d) = Inr (JObj d') \<and>
     (map_of d' ''old_string'' \<noteq> None \<longleftrightarrow>
        map_of d ''old_string'' \<noteq> None \<and> map_of d ''old_str'' \<noteq> None) \<and>
     (map_of d' ''old'' \<noteq> None \<longleftrightarrow>
        map_of d ''old'' \<noteq> None \<and>
        (map_of d ''old_str'' \<noteq> None \<or> map_of d ''old_string'' \<noteq> None)) \<and>
     (map_of d' ''new_string'' \<noteq> None \<longleftrightarrow>
        map_of d ''new_string'' \<noteq> None \<and> map_of d ''new_str'' \<noteq> None) \<and>
     (map_of d' ''new_striing'' \<noteq> None \<longleftrightarrow>
        map_of d ''new_striing'' \<noteq> None \<and>
        (map_of d ''new_str'' \<noteq> None \<or> map_of d ''new_string'' \<noteq> None)) \<and>
     (map_of d' ''new'' \<noteq> None \<longleftrightarrow>
        map_of d ''new'' \<noteq> None \<and>
        (map_of d ''new_str'' \<noteq> None \<or> map_of d ''new_string'' \<noteq> None \<or>
         map_of d ''new_striing'' \<noteq> None)) \<and>
     (supplied d [''old_str'', ''old_string'', ''old''] \<le> 1 \<and>
      supplied d [''new_str'', ''new_string'', ''new_striing'', ''new''] \<le> 1 \<longrightarrow>
        (\<forall>k \<in> set alias_keys. map_of d' k = None))"
proof -
  let ?d' = "normalize_dict d"
  have 1: "map_of ?d' ''old_string'' \<noteq> None \<longleftrightarrow>
        map_of d ''old_string'' \<noteq> None \<and> map_of d ''old_str'' \<noteq> None"
    by (simp add: norm_old_string)
  have 2: "map_of ?d' ''old'' \<noteq> None \<longleftrightarrow>
        map_of d ''old'' \<noteq> None \<and>
        (map_of d ''old_str'' \<noteq> None \<or> map_of d ''old_string'' \<noteq> None)"
    by (simp add: norm_old)
  have 3: "map_of ?d' ''new_string'' \<noteq> None \<longleftrightarrow>
        map_of d ''new_string'' \<noteq> None \<and> map_of d ''new_str'' \<noteq> None"
    by (simp add: norm_new_string)
  have 4: "map_of ?d' ''new_striing'' \<noteq> None \<longleftrightarrow>
        map_of d ''new_striing'' \<noteq> None \<and>
        (map_of d ''new_str'' \<noteq> None \<or> map_of d ''new_string'' \<noteq> None)"
    by (simp add: norm_new_striing)
  have 5: "map_of ?d' ''new'' \<noteq> None \<longleftrightarrow>
        map_of d ''new'' \<noteq> None \<and>
        (map_of d ''new_str'' \<noteq> None \<or> map_of d ''new_string'' \<noteq> None \<or>
         map_of d ''new_striing'' \<noteq> None)"
    by (simp add: norm_new)
  have 6: "\<forall>k \<in> set alias_keys. map_of ?d' k = None"
    if o: "supplied d [''old_str'', ''old_string'', ''old''] \<le> 1"
    and n: "supplied d [''new_str'', ''new_string'', ''new_striing'', ''new''] \<le> 1"
  proof -
    have a: "map_of ?d' ''old_string'' = None" "map_of ?d' ''old'' = None"
      using o 1 2 by (auto simp: supplied_def split: if_splits)
    have b: "map_of ?d' ''new_string'' = None" "map_of ?d' ''new_striing'' = None"
      "map_of ?d' ''new'' = None"
      using n 3 4 5 by (auto simp: supplied_def split: if_splits)
    show ?thesis using a b by (simp add: alias_keys_def)
  qed
  show ?thesis
    using normalize_edit_arguments_dict[of d] 1 2 3 4 5 6 by blast
qed

text \<open>
  An arguments dict with one name per canonical parameter: no alias key is left.
\<close>

theorem alias_survives_exactly_witness:
  "supplied [(''doc_id'', JStr ''plan.md''), (''old_string'', JStr ''foo''), (''new'', JStr ''bar'')]
     [''old_str'', ''old_string'', ''old''] \<le> 1 \<and>
   supplied [(''doc_id'', JStr ''plan.md''), (''old_string'', JStr ''foo''), (''new'', JStr ''bar'')]
     [''new_str'', ''new_string'', ''new_striing'', ''new''] \<le> 1 \<and>
   (\<exists>d'. normalize_edit_arguments
       (JObj [(''doc_id'', JStr ''plan.md''), (''old_string'', JStr ''foo''), (''new'', JStr ''bar'')]) =
         Inr (JObj d') \<and>
       list_all (\<lambda>k. map_of d' k = None) alias_keys)"
proof -
  let ?d = "[(''doc_id'', JStr ''plan.md''), (''old_string'', JStr ''foo''), (''new'', JStr ''bar'')]"
  have h: "supplied ?d [''old_str'', ''old_string'', ''old''] \<le> 1"
    "supplied ?d [''new_str'', ''new_string'', ''new_striing'', ''new''] \<le> 1"
    by (simp_all add: supplied_def)
  from alias_survives_exactly[of ?d] h
  obtain d' where "normalize_edit_arguments (JObj ?d) = Inr (JObj d')"
    "\<forall>k \<in> set alias_keys. map_of d' k = None" by blast
  then have "normalize_edit_arguments (JObj ?d) = Inr (JObj d') \<and>
       list_all (\<lambda>k. map_of d' k = None) alias_keys" by (simp add: list_all_iff)
  with h show ?thesis by blast
qed

text \<open>
  Claim C4.  The value under \<open>old_str\<close> after normalization is the one supplied under
  \<open>old_str\<close>, else under \<open>old_string\<close>, else under \<open>old\<close>; the value under \<open>new_str\<close> is the
  one supplied under \<open>new_str\<close>, else \<open>new_string\<close>, else \<open>new_striing\<close>, else \<open>new\<close>.  The
  alias whose value was taken is removed, and an alias that was not consulted keeps its
  value.  The two examples of the specification give exactly the canonical dict.
\<close>

theorem edit_alias_priority:
  "\<exists>d'. normalize_edit_arguments (JObj d) = Inr (JObj d') \<and>
     map_of d' ''old_str'' =
       (case map_of d ''old_str'' of Some v \<Rightarrow> Some v
        | None \<Rightarrow> (case map_of d ''old_string'' of Some v \<Rightarrow> Some v
           | None \<Rightarrow> map_of d ''old'')) \<and>
     map_of d' ''new_str'' =
       (case map_of d ''new_str'' of Some v \<Rightarrow> Some v
        | None \<Rightarrow> (case map_of d ''new_string'' of Some v \<Rightarrow> Some v
           | None \<Rightarrow> (case map_of d ''new_striing'' of Some v \<Rightarrow> Some v
              | None \<Rightarrow> map_of d ''new''))) \<and>
     map_of d' ''old_string'' =
       (if map_of d ''old_str'' = None then None else map_of d ''old_string'') \<and>
     map_of d' ''old'' =
       (if map_of d ''old_str'' = None \<and> map_of d ''old_string'' = None then None
        else map_of d ''old'') \<and>
     map_of d' ''new_string'' =
       (if map_of d ''new_str'' = None then None else map_of d ''new_string'') \<and>
     map_of d' ''new_striing'' =
       (if map_of d ''new_str'' = None \<and> map_of d ''new_string'' = None then None
        else map_of d ''new_striing'') \<and>
     map_of d' ''new'' =
       (if map_of d ''new_str'' = None \<and> map_of d ''new_string'' = None \<and>
           map_of d ''new_striing'' = None then None
        else map_of d ''new'') \<and>
     normalize_edit_arguments (JObj [(''old_string'', JStr ''foo''), (''new'', JStr ''bar'')]) =
       Inr (JObj [(''old_str'', JStr ''foo''), (''new_str'', JStr ''bar'')]) \<and>
     normalize_edit_arguments (JObj [(''old_string'', JStr ''foo''), (''new_striing'', JStr ''bar'')]) =
       Inr (JObj [(''old_str'', JStr ''foo''), (''new_str'', JStr ''bar'')])"
proof -
  have e1: "normalize_edit_arguments (JObj [(''old_string'', JStr ''foo''), (''new'', JStr ''bar'')]) =
       Inr (JObj [(''old_str'', JStr ''foo''), (''new_str'', JStr ''bar'')])"
    by (simp add: normalize_edit_arguments_dict normalize_dict_def normalize_canonical_def)
  have e2: "normalize_edit_arguments (JObj [(''old_string'', JStr ''foo''), (''new_striing'', JStr ''bar'')]) =
       Inr (JObj [(''old_str'', JStr ''foo''), (''new_str'', JStr ''bar'')])"
    by (simp add: normalize_edit_arguments_dict normalize_dict_def normalize_canonical_def)
  show ?thesis
    using normalize_edit_arguments_dict[of d] norm_old_str[of d] norm_new_str[of d]
      norm_old_string[of d] norm_old[of d] norm_new_string[of d] norm_new_striing[of d]
      norm_new[of d] e1 e2
    by blast
qed

lemma normalize_dict_no_alias:
  assumes "\<forall>k \<in> set alias_keys. map_of d k = None"
  shows "normalize_dict d = d"
  using assms
  by (simp add: alias_keys_def normalize_dict_def normalize_canonical_def)

text \<open>
  Claim C5.  A dict whose keys are among \<open>old_str\<close> and \<open>new_str\<close> is returned unchanged.
  For every dict, each entry of the normalized dict was supplied by the model under the
  same key, or is a canonical key holding a value the model supplied under one of that
  key's aliases.
\<close>

theorem normalize_canonical_unchanged_never_invents:
  "(set (map fst d) \<subseteq> {''old_str'', ''new_str''} \<longrightarrow>
      normalize_edit_arguments (JObj d) = Inr (JObj d)) \<and>
   (\<exists>d'. normalize_edit_arguments (JObj d) = Inr (JObj d') \<and>
      (\<forall>k v. map_of d' k = Some v \<longrightarrow>
         map_of d k = Some v \<or>
         (k = ''old_str'' \<and> (map_of d ''old_string'' = Some v \<or> map_of d ''old'' = Some v)) \<or>
         (k = ''new_str'' \<and> (map_of d ''new_string'' = Some v \<or>
            map_of d ''new_striing'' = Some v \<or> map_of d ''new'' = Some v))))"
proof -
  have a: "normalize_edit_arguments (JObj d) = Inr (JObj d)"
    if "set (map fst d) \<subseteq> {''old_str'', ''new_str''}"
  proof -
    have "\<forall>k \<in> set alias_keys. k \<notin> fst ` set d"
      using that by (auto simp: alias_keys_def)
    then have "\<forall>k \<in> set alias_keys. map_of d k = None"
      by (simp add: map_of_eq_None_iff)
    then show ?thesis
      by (simp add: normalize_edit_arguments_dict normalize_dict_no_alias)
  qed
  have b: "map_of d k = Some v \<or>
         (k = ''old_str'' \<and> (map_of d ''old_string'' = Some v \<or> map_of d ''old'' = Some v)) \<or>
         (k = ''new_str'' \<and> (map_of d ''new_string'' = Some v \<or>
            map_of d ''new_striing'' = Some v \<or> map_of d ''new'' = Some v))"
    if kv: "map_of (normalize_dict d) k = Some v" for k v
  proof (cases "k \<in> set [''old_str'', ''old_string'', ''old'', ''new_str'', ''new_string'',
      ''new_striing'', ''new'']")
    case False
    then show ?thesis using kv norm_other[of k d] by simp
  next
    case True
    then consider "k = ''old_str''" | "k = ''old_string''" | "k = ''old''" | "k = ''new_str''"
      | "k = ''new_string''" | "k = ''new_striing''" | "k = ''new''" by auto
    then show ?thesis
    proof cases
      case 1 then show ?thesis using kv norm_old_str[of d] by (auto split: option.splits)
    next
      case 2 then show ?thesis using kv norm_old_string[of d] by (auto split: if_splits)
    next
      case 3 then show ?thesis using kv norm_old[of d] by (auto split: if_splits)
    next
      case 4 then show ?thesis using kv norm_new_str[of d] by (auto split: option.splits)
    next
      case 5 then show ?thesis using kv norm_new_string[of d] by (auto split: if_splits)
    next
      case 6 then show ?thesis using kv norm_new_striing[of d] by (auto split: if_splits)
    next
      case 7 then show ?thesis using kv norm_new[of d] by (auto split: if_splits)
    qed
  qed
  show ?thesis using a b normalize_edit_arguments_dict[of d] by blast
qed

text \<open>
  A canonical arguments dict is returned as it is.
\<close>

theorem normalize_canonical_unchanged_never_invents_witness:
  "set (map fst [(''old_str'', JStr ''foo''), (''new_str'', JStr ''bar'')]) \<subseteq> {''old_str'', ''new_str''} \<and>
   normalize_edit_arguments (JObj [(''old_str'', JStr ''foo''), (''new_str'', JStr ''bar'')]) =
     Inr (JObj [(''old_str'', JStr ''foo''), (''new_str'', JStr ''bar'')])"
  using normalize_canonical_unchanged_never_invents
    [of "[(''old_str'', JStr ''foo''), (''new_str'', JStr ''bar'')]"]
  by simp

section \<open>What a turn does with the parsed reply\<close>

lemma execute_tool_Inl:
  "call_tool env n a = Inl e \<Longrightarrow>
   execute_tool env u n a = ([PrintToolRequest n a, CallTool n a, PrintToolError n e], AwaitingInput)"
  by (simp add: execute_tool_def)

lemma execute_tool_Inr:
  "call_tool env n a = Inr r \<Longrightarrow>
   \<exists>rest out. execute_tool env u n a =
     (PrintToolRequest n a # CallTool n a # PrintToolResult n (extract_tool_result_text env r) #
      ChatFollowup u n (extract_tool_result_text env r) # rest, out) \<and>
     tool_calls rest = 0 \<and> followups rest = 0"
  by (simp add: execute_tool_def Let_def tool_calls_def followups_def split: sum.splits)

lemma execute_tool_shape:
  "\<exists>rest out. execute_tool env u n a = (PrintToolRequest n a # CallTool n a # rest, out) \<and>
     tool_calls rest = 0"
  by (cases "call_tool env n a")
     (auto simp: execute_tool_def Let_def tool_calls_def split: sum.splits)

text \<open>
  Claim C3 as stated fails: a reply whose \<open>"arguments"\<close> is present but falsy (here the
  empty list) is not passed on with that value; the tool is called with the empty
  mapping.
\<close>

theorem falsy_arguments_counterexample:
  "handle_parsed failing_env ''hola''
     (JObj [(''tool'', JStr ''read_doc_contents''), (''arguments'', JArr [])]) =
   ([PrintToolRequest (JStr ''read_doc_contents'') (JObj []),
     CallTool (JStr ''read_doc_contents'') (JObj []),
     PrintToolError (JStr ''read_doc_contents'') (ToolError ''Unknown tool'')], AwaitingInput)"
  by (simp add: handle_parsed_def get_arguments_def execute_tool_def failing_env_def)

text \<open>
  Claim C3, amended.  A parsed mapping with \<open>"answer"\<close> and without \<open>"tool"\<close> is answered
  with the value of \<open>"answer"\<close> and nothing else happens.  A parsed mapping with \<open>"tool"\<close>
  takes as arguments the value of \<open>"arguments"\<close> when it is present and truthy, and the
  empty mapping when it is absent or falsy; a tool other than \<open>edit_document\<close> is requested
  and called exactly once with these arguments, and \<open>edit_document\<close> whose arguments are a
  mapping is requested and called exactly once with the alias-normalized mapping.  Every
  other parsed value, a mapping with neither key or a value that is no mapping, is shown
  as it is; the turn ends at the prompt with no tool call.
\<close>

theorem classify_parsed:
  "(map_of d ''answer'' = Some answer \<and> map_of d ''tool'' = None \<longrightarrow>
      handle_parsed env u (JObj d) = ([PrintAnswer answer], AwaitingInput)) \<and>
   (map_of d ''tool'' = Some n \<and> n \<noteq> JStr ''edit_document'' \<longrightarrow>
      (\<exists>rest out. handle_parsed env u (JObj d) =
         (PrintToolRequest n (get_arguments d) # CallTool n (get_arguments d) # rest, out) \<and>
         tool_calls rest = 0)) \<and>
   (map_of d ''tool'' = Some (JStr ''edit_document'') \<and> get_arguments d = JObj m \<longrightarrow>
      (\<exists>m' rest out. normalize_edit_arguments (JObj m) = Inr (JObj m') \<and>
         handle_parsed env u (JObj d) =
           (PrintToolRequest (JStr ''edit_document'') (JObj m') #
            CallTool (JStr ''edit_document'') (JObj m') # rest, out) \<and>
         tool_calls rest = 0)) \<and>
   (map_of d ''arguments'' = None \<longrightarrow> get_arguments d = JObj []) \<and>
   (map_of d ''arguments'' = Some v \<and> truthy v \<longrightarrow> get_arguments d = v) \<and>
   (map_of d ''arguments'' = Some v \<and> \<not> truthy v \<longrightarrow> get_arguments d = JObj []) \<and>
   (map_of d ''answer'' = None \<and> map_of d ''tool'' = None \<longrightarrow>
      handle_parsed env u (JObj d) = ([PrintUnrecognized (JObj d)], AwaitingInput)) \<and>
   ((\<forall>d'. obj \<noteq> JObj d') \<longrightarrow>
      handle_parsed env u obj = ([PrintUnrecognized obj], AwaitingInput))"
proof -
  have 1: "handle_parsed env u (JObj d) = ([PrintAnswer answer], AwaitingInput)"
    if "map_of d ''answer'' = Some answer" "map_of d ''tool'' = None"
    using that by (simp add: handle_parsed_def)
  have 2: "\<exists>rest out. handle_parsed env u (JObj d) =
         (PrintToolRequest n (get_arguments d) # CallTool n (get_arguments d) # rest, out) \<and>
         tool_calls rest = 0"
    if "map_of d ''tool'' = Some n" "n \<noteq> JStr ''edit_document''"
  proof -
    have "handle_parsed env u (JObj d) = execute_tool env u n (get_arguments d)"
      using that by (simp add: handle_parsed_def split: option.splits)
    then show ?thesis using execute_tool_shape[of env u n "get_arguments d"] by simp
  qed
  have 3: "\<exists>m' rest out. normalize_edit_arguments (JObj m) = Inr (JObj m') \<and>
         handle_parsed env u (JObj d) =
           (PrintToolRequest (JStr ''edit_document'') (JObj m') #
            CallTool (JStr ''edit_document'') (JObj m') # rest, out) \<and>
         tool_calls rest = 0"
    if "map_of d ''tool'' = Some (JStr ''edit_document'')" "get_arguments d = JObj m"
  proof -
    have n: "normalize_edit_arguments (JObj m) = Inr (JObj (normalize_dict m))"
      by (rule normalize_edit_arguments_dict)
    then have "handle_parsed env u (JObj d) =
        execute_tool env u (JStr ''edit_document'') (JObj (normalize_dict m))"
      using that by (simp add: handle_parsed_def split: option.splits)
    then show ?thesis
      using n execute_tool_shape[of env u "JStr ''edit_document''" "JObj (normalize_dict m)"]
      by auto
  qed
  have 4: "get_arguments d = JObj []" if "map_of d ''arguments'' = None"
    using that by (simp add: get_arguments_def)
  have 5: "get_arguments d = v" if "map_of d ''arguments'' = Some v" "truthy v"
    using that by (simp add: get_arguments_def)
  have 6: "get_arguments d = JObj []" if "map_of d ''arguments'' = Some v" "\<not> truthy v"
    using that by (simp add: get_arguments_def)
  have 7: "handle_parsed env u (JObj d) = ([PrintUnrecognized (JObj d)], AwaitingInput)"
    if "map_of d ''answer'' = None" "map_of d ''tool'' = None"
    using that by (simp add: handle_parsed_def)
  have 8: "handle_parsed env u obj = ([PrintUnrecognized obj], AwaitingInput)"
    if "\<forall>d'. obj \<noteq> JObj d'"
    using that by (cases obj) (simp_all add: handle_parsed_def)
  show ?thesis using 1 2 3 4 5 6 7 8 by blast
qed

text \<open>
  The four shapes at concrete parsed replies.
\<close>

theorem classify_parsed_witness:
  "handle_parsed failing_env ''hola'' (JObj [(''answer'', JStr ''X'')]) =
     ([PrintAnswer (JStr ''X'')], AwaitingInput) \<and>
   (\<exists>rest out. handle_parsed failing_env ''hola''
       (JObj [(''tool'', JStr ''read_doc_contents''),
              (''arguments'', JObj [(''doc_id'', JStr ''report.pdf'')])]) =
     (PrintToolRequest (JStr ''read_doc_contents'') (JObj [(''doc_id'', JStr ''report.pdf'')]) #
      CallTool (JStr ''read_doc_contents'') (JObj [(''doc_id'', JStr ''report.pdf'')]) # rest, out)) \<and>
   handle_parsed failing_env ''hola'' (JObj [(''reply'', JStr ''X'')]) =
     ([PrintUnrecognized (JObj [(''reply'', JStr ''X'')])], AwaitingInput) \<and>
   handle_parsed failing_env ''hola'' (JArr [JInt 1]) =
     ([PrintUnrecognized (JArr [JInt 1])], AwaitingInput)"
proof -
  let ?a = "JObj [(''doc_id'', JStr ''report.pdf'')]"
  let ?d = "[(''tool'', JStr ''read_doc_contents''), (''arguments'', ?a)]"
  note t = classify_parsed[where d = ?d and env = failing_env and u = "''hola''"
      and n = "JStr ''read_doc_contents''" and v = ?a and obj = JNull and answer = JNull
      and m = "[]"]
  have h: "map_of ?d ''tool'' = Some (JStr ''read_doc_contents'') \<and>
      JStr ''read_doc_contents'' \<noteq> JStr ''edit_document''" by simp
  have a: "get_arguments ?d = ?a"
    using t by simp
  have 1: "handle_parsed failing_env ''hola'' (JObj [(''answer'', JStr ''X'')]) =
     ([PrintAnswer (JStr ''X'')], AwaitingInput)"
    using classify_parsed[where d = "[(''answer'', JStr ''X'')]" and answer = "JStr ''X''"
        and env = failing_env and u = "''hola''" and n = JNull and m = "[]" and v = JNull
        and obj = JNull]
    by simp
  have "\<exists>rest out. handle_parsed failing_env ''hola'' (JObj ?d) =
     (PrintToolRequest (JStr ''read_doc_contents'') (get_arguments ?d) #
      CallTool (JStr ''read_doc_contents'') (get_arguments ?d) # rest, out) \<and> tool_calls rest = 0"
    using t h by blast
  then have 2: "\<exists>rest out. handle_parsed failing_env ''hola'' (JObj ?d) =
     (PrintToolRequest (JStr ''read_doc_contents'') ?a #
      CallTool (JStr ''read_doc_contents'') ?a # rest, out)"
    unfolding a by blast
  have 3: "handle_parsed failing_env ''hola'' (JObj [(''reply'', JStr ''X'')]) =
     ([PrintUnrecognized (JObj [(''reply'', JStr ''X'')])], AwaitingInput)"
    using classify_parsed[where d = "[(''reply'', JStr ''X'')]" and env = failing_env
        and u = "''hola''" and n = JNull and m = "[]" and v = JNull and obj = JNull
        and answer = JNull] by simp
  have 4: "handle_parsed failing_env ''hola'' (JArr [JInt 1]) =
     ([PrintUnrecognized (JArr [JInt 1])], AwaitingInput)"
    using classify_parsed[where obj = "JArr [JInt 1]" and env = failing_env
        and u = "''hola''" and n = JNull and m = "[]" and v = JNull and d = "[]"
        and answer = JNull] by simp
  show ?thesis using 1 2 3 4 by blast
qed

section \<open>Tool calls and follow-up model calls of a turn\<close>

lemma quiet_simps [simp]:
  "quiet []"
  "quiet (ev # evs) \<longleftrightarrow> \<not> is_tool_call ev \<and> \<not> is_followup ev \<and> quiet evs"
  "quiet (xs @ ys) \<longleftrightarrow> quiet xs \<and> quiet ys"
  by (auto simp: quiet_def tool_calls_def followups_def)

lemma quiet_not_mem:
  "quiet evs \<Longrightarrow> CallTool n a \<notin> set evs"
  by (induction evs) auto

lemma execute_tool_turn_shape:
  "turn_shape env u (fst (execute_tool env u n a)) (snd (execute_tool env u n a))"
proof (cases "call_tool env n a")
  case (Inl e)
  then have "execute_tool env u n a =
      ([] @ [PrintToolRequest n a, CallTool n a, PrintToolError n e], AwaitingInput)"
    by (simp add: execute_tool_def)
  with Inl show ?thesis unfolding turn_shape_def
    by (metis fst_conv snd_conv quiet_simps(1))
next
  case (Inr r)
  let ?t = "extract_tool_result_text env r"
  have "\<exists>rest. quiet rest \<and> fst (execute_tool env u n a) =
      [] @ [PrintToolRequest n a, CallTool n a, PrintToolResult n ?t, ChatFollowup u n ?t] @ rest"
    using Inr by (cases "chat_followup env u n ?t") (simp_all add: execute_tool_def Let_def)
  with Inr show ?thesis unfolding turn_shape_def
    by (metis quiet_simps(1))
qed

lemma handle_parsed_turn_shape:
  "turn_shape env u (fst (handle_parsed env u obj)) (snd (handle_parsed env u obj))"
proof -
  have q: "\<And>out. turn_shape env u [] out" "\<And>x out. turn_shape env u [PrintUnrecognized x] out"
    "\<And>x out. turn_shape env u [PrintAnswer x] out"
    by (simp_all add: turn_shape_def)
  show ?thesis
  proof (cases obj)
    case (JObj d)
    show ?thesis
    proof (cases "map_of d ''tool''")
      case None
      then show ?thesis using JObj q
        by (cases "map_of d ''answer''") (simp_all add: handle_parsed_def)
    next
      case (Some n)
      let ?norm = "if n = JStr ''edit_document''
                      then normalize_edit_arguments (get_arguments d)
                      else Inr (get_arguments d)"
      show ?thesis
      proof (cases ?norm)
        case (Inl e)
        then have "handle_parsed env u obj = ([], Raised e)"
          using JObj Some by (simp add: handle_parsed_def split: option.splits)
        then show ?thesis using q by simp
      next
        case (Inr a)
        then have "handle_parsed env u obj = execute_tool env u n a"
          using JObj Some by (simp add: handle_parsed_def split: option.splits)
        then show ?thesis using execute_tool_turn_shape by simp
      qed
    qed
  qed (simp_all add: handle_parsed_def q)
qed

lemma handle_reply_turn_shape:
  "turn_shape env u (fst (handle_reply env u raw)) (snd (handle_reply env u raw))"
proof (cases "json_loads env (extract_json_from_text raw)")
  case (Inl e)
  then show ?thesis by (simp add: handle_reply_def turn_shape_def)
next
  case (Inr obj)
  then show ?thesis using handle_parsed_turn_shape[of env u obj] by (simp add: handle_reply_def)
qed

lemma turn_shape_Cons:
  "\<not> is_tool_call ev \<Longrightarrow> \<not> is_followup ev \<Longrightarrow> turn_shape env u evs out \<Longrightarrow>
   turn_shape env u (ev # evs) out"
  unfolding turn_shape_def
proof (elim disjE exE conjE)
  fix pre n a e
  assume "\<not> is_tool_call ev" "\<not> is_followup ev" "quiet pre" "call_tool env n a = Inl e"
    "out = AwaitingInput" "evs = pre @ [PrintToolRequest n a, CallTool n a, PrintToolError n e]"
  then have "quiet (ev # pre) \<and> call_tool env n a = Inl e \<and> out = AwaitingInput \<and>
        ev # evs = (ev # pre) @ [PrintToolRequest n a, CallTool n a, PrintToolError n e]"
    by simp
  then show "quiet (ev # evs) \<or>
     (\<exists>pre n a e. quiet pre \<and> call_tool env n a = Inl e \<and> out = AwaitingInput \<and>
        ev # evs = pre @ [PrintToolRequest n a, CallTool n a, PrintToolError n e]) \<or>
     (\<exists>pre n a r rest. quiet pre \<and> quiet rest \<and> call_tool env n a = Inr r \<and>
        ev # evs = pre @ [PrintToolRequest n a, CallTool n a,
                     PrintToolResult n (extract_tool_result_text env r),
                     ChatFollowup u n (extract_tool_result_text env r)] @ rest)"
    by blast
next
  fix pre n a r rest
  assume "\<not> is_tool_call ev" "\<not> is_followup ev" "quiet pre" "quiet rest"
    "call_tool env n a = Inr r"
    "evs = pre @ [PrintToolRequest n a, CallTool n a,
                     PrintToolResult n (extract_tool_result_text env r),
                     ChatFollowup u n (extract_tool_result_text env r)] @ rest"
  then have "quiet (ev # pre) \<and> quiet rest \<and> call_tool env n a = Inr r \<and>
        ev # evs = (ev # pre) @ [PrintToolRequest n a, CallTool n a,
                     PrintToolResult n (extract_tool_result_text env r),
                     ChatFollowup u n (extract_tool_result_text env r)] @ rest"
    by simp
  then show "quiet (ev # evs) \<or>
     (\<exists>pre n a e. quiet pre \<and> call_tool env n a = Inl e \<and> out = AwaitingInput \<and>
        ev # evs = pre @ [PrintToolRequest n a, CallTool n a, PrintToolError n e]) \<or>
     (\<exists>pre n a r rest. quiet pre \<and> quiet rest \<and> call_tool env n a = Inr r \<and>
        ev # evs = pre @ [PrintToolRequest n a, CallTool n a,
                     PrintToolResult n (extract_tool_result_text env r),
                     ChatFollowup u n (extract_tool_result_text env r)] @ rest)"
    by blast
qed simp

lemma process_turn_turn_shape:
  "turn_shape env u (fst (process_turn env u)) (snd (process_turn env u))"
proof (cases "chat_decide env u")
  case (Inl e)
  then show ?thesis by (simp add: process_turn_def turn_shape_def)
next
  case (Inr msg)
  let ?raw = "text_from_message (repr_json env) msg"
  have "process_turn env u =
      (ChatDecide u # fst (handle_reply env u ?raw), snd (handle_reply env u ?raw))"
    using Inr by (simp add: process_turn_def Let_def split: prod.splits)
  then show ?thesis
    using turn_shape_Cons[OF _ _ handle_reply_turn_shape[of env u ?raw], of "ChatDecide u"]
    by simp
qed

lemma quiet_counts: "quiet evs \<Longrightarrow> tool_calls evs = 0 \<and> followups evs = 0"
  by (simp add: quiet_def)

lemma counts_append [simp]:
  "tool_calls (xs @ ys) = tool_calls xs + tool_calls ys"
  "followups (xs @ ys) = followups xs + followups ys"
  "tool_calls (ev # evs) = (if is_tool_call ev then 1 else 0) + tool_calls evs"
  "followups (ev # evs) = (if is_followup ev then 1 else 0) + followups evs"
  "tool_calls [] = 0" "followups [] = 0"
  by (simp_all add: tool_calls_def followups_def)

lemma turn_shape_consequences:
  assumes "turn_shape env u evs out"
  shows "(CallTool n a \<in> set evs \<and> call_tool env n a = Inl e \<longrightarrow>
            last evs = PrintToolError n e \<and> followups evs = 0 \<and> out = AwaitingInput) \<and>
      (CallTool n a \<in> set evs \<and> call_tool env n a = Inr r \<longrightarrow>
            followups evs = 1 \<and> ChatFollowup u n (extract_tool_result_text env r) \<in> set evs) \<and>
      (0 < followups evs \<longrightarrow>
            (\<exists>n a r. CallTool n a \<in> set evs \<and> call_tool env n a = Inr r)) \<and>
      tool_calls evs \<le> 1 \<and> followups evs \<le> 1"
proof -
  from assms consider
    (q) "quiet evs"
  | (f) pre n' a' e' where "quiet pre" "call_tool env n' a' = Inl e'" "out = AwaitingInput"
        "evs = pre @ [PrintToolRequest n' a', CallTool n' a', PrintToolError n' e']"
  | (s) pre n' a' r' rest where "quiet pre" "quiet rest" "call_tool env n' a' = Inr r'"
        "evs = pre @ [PrintToolRequest n' a', CallTool n' a',
                     PrintToolResult n' (extract_tool_result_text env r'),
                     ChatFollowup u n' (extract_tool_result_text env r')] @ rest"
    unfolding turn_shape_def by blast
  then show ?thesis
  proof cases
    case q
    then show ?thesis using quiet_not_mem[of evs n a] quiet_counts[of evs] by simp
  next
    case f
    have mem: "CallTool n a \<in> set evs \<longleftrightarrow> n = n' \<and> a = a'"
      using f(1,4) quiet_not_mem[of pre n a] by auto
    have "followups evs = 0" "tool_calls evs = 1"
      using f(1,4) quiet_counts[of pre] by simp_all
    moreover have "last evs = PrintToolError n' e'" using f(4) by simp
    ultimately show ?thesis using mem f(2,3) by auto
  next
    case s
    have mem: "CallTool n a \<in> set evs \<longleftrightarrow> n = n' \<and> a = a'"
      using s(1,2,4) quiet_not_mem[of pre n a] quiet_not_mem[of rest n a] by auto
    have c: "followups evs = 1" "tool_calls evs = 1"
      using s(1,2,4) quiet_counts[of pre] quiet_counts[of rest] by simp_all
    have m2: "ChatFollowup u n' (extract_tool_result_text env r') \<in> set evs"
      "CallTool n' a' \<in> set evs"
      using s(4) by simp_all
    show ?thesis using mem c m2 s(3) by auto
  qed
qed

text \<open>
  Claim C7.  In every turn: when the tool call of the turn raises, the last thing the
  turn does is report the tool name and the error, no follow-up model call is made, and
  the turn ends at the prompt; when it returns, exactly one follow-up model call is made,
  with the tool's text; a follow-up model call is made only after a tool call that
  returned; and a turn has at most one tool call and at most one follow-up call.
\<close>

theorem tool_failure_no_synthesis:
  "(CallTool n a \<in> set (fst (process_turn env u)) \<and> call_tool env n a = Inl e \<longrightarrow>
      last (fst (process_turn env u)) = PrintToolError n e \<and>
      followups (fst (process_turn env u)) = 0 \<and>
      snd (process_turn env u) = AwaitingInput) \<and>
   (CallTool n a \<in> set (fst (process_turn env u)) \<and> call_tool env n a = Inr r \<longrightarrow>
      followups (fst (process_turn env u)) = 1 \<and>
      ChatFollowup u n (extract_tool_result_text env r) \<in> set (fst (process_turn env u))) \<and>
   (0 < followups (fst (process_turn env u)) \<longrightarrow>
      (\<exists>n a r. CallTool n a \<in> set (fst (process_turn env u)) \<and> call_tool env n a = Inr r)) \<and>
   tool_calls (fst (process_turn env u)) \<le> 1 \<and>
   followups (fst (process_turn env u)) \<le> 1"
  using turn_shape_consequences[OF process_turn_turn_shape[of env u], of n a e r]
  by blast

text \<open>
  Scenario C of the specification (the provider rejects \<open>unknown_tool\<close>), and a turn whose
  tool call returns.
\<close>

theorem tool_failure_no_synthesis_witness:
  "process_turn
     (scripted_env (JObj [(''tool'', JStr ''unknown_tool'')]) (Inl (ToolError ''Unknown tool'')))
     ''hola'' =
     ([ChatDecide ''hola'',
       PrintToolRequest (JStr ''unknown_tool'') (JObj []),
       CallTool (JStr ''unknown_tool'') (JObj []),
       PrintToolError (JStr ''unknown_tool'') (ToolError ''Unknown tool'')], AwaitingInput) \<and>
   followups (fst (process_turn
     (scripted_env (JObj [(''tool'', JStr ''unknown_tool'')]) (Inl (ToolError ''Unknown tool'')))
     ''hola'')) = 0 \<and>
   followups (fst (process_turn
     (scripted_env (JObj [(''tool'', JStr ''read_doc_contents''),
                          (''arguments'', JObj [(''doc_id'', JStr ''plan.md'')])])
        (Inr (CallToolResult [TextContent ''The plan''] None)))
     ''hola'')) = 1"
proof -
  let ?e1 = "scripted_env (JObj [(''tool'', JStr ''unknown_tool'')]) (Inl (ToolError ''Unknown tool''))"
  let ?e2 = "scripted_env (JObj [(''tool'', JStr ''read_doc_contents''),
                          (''arguments'', JObj [(''doc_id'', JStr ''plan.md'')])])
        (Inr (CallToolResult [TextContent ''The plan''] None))"
  have p1: "process_turn ?e1 ''hola'' =
     ([ChatDecide ''hola'',
       PrintToolRequest (JStr ''unknown_tool'') (JObj []),
       CallTool (JStr ''unknown_tool'') (JObj []),
       PrintToolError (JStr ''unknown_tool'') (ToolError ''Unknown tool'')], AwaitingInput)"
    by (simp add: process_turn_def handle_reply_def handle_parsed_def execute_tool_def
        get_arguments_def scripted_env_def)
  have c1: "call_tool ?e1 (JStr ''unknown_tool'') (JObj []) = Inl (ToolError ''Unknown tool'')"
    by (simp add: scripted_env_def)
  have f1: "followups (fst (process_turn ?e1 ''hola'')) = 0"
    using tool_failure_no_synthesis[where env = ?e1 and u = "''hola''"
        and n = "JStr ''unknown_tool''" and a = "JObj []" and e = "ToolError ''Unknown tool''"
        and r = OtherResult] p1 c1
    by simp
  have m2: "CallTool (JStr ''read_doc_contents'') (JObj [(''doc_id'', JStr ''plan.md'')])
      \<in> set (fst (process_turn ?e2 ''hola''))"
    by (simp add: process_turn_def handle_reply_def handle_parsed_def execute_tool_def
        get_arguments_def scripted_env_def Let_def)
  have c2: "call_tool ?e2 (JStr ''read_doc_contents'') (JObj [(''doc_id'', JStr ''plan.md'')]) =
      Inr (CallToolResult [TextContent ''The plan''] None)"
    by (simp add: scripted_env_def)
  have f2: "followups (fst (process_turn ?e2 ''hola'')) = 1"
    using tool_failure_no_synthesis[where env = ?e2 and u = "''hola''"
        and n = "JStr ''read_doc_contents''" and a = "JObj [(''doc_id'', JStr ''plan.md'')]"
        and e = TypeError and r = "CallToolResult [TextContent ''The plan''] None"] m2 c2
    by blast
  show ?thesis using p1 f1 f2 by blast
qed

section \<open>Text of a tool result\<close>

lemma first_text_Some:
  "list_all (\<lambda>c. c = OtherContent) pre \<Longrightarrow> first_text (pre @ TextContent t # post) = Some t"
  by (induction pre) auto

lemma first_text_None:
  "list_all (\<lambda>c. c = OtherContent) cont \<Longrightarrow> first_text cont = None"
  by (induction cont) auto

lemma no_result_field:
  "\<not> (\<exists>v. result_field sc v) \<Longrightarrow>
   (case sc of Some (JObj d) \<Rightarrow> map_of d ''result'' | _ \<Rightarrow> None) = None"
  by (auto simp: result_field_def split: option.splits json.splits)

text \<open>
  Claim C8.  The text of a tool result, by priority: the textual form of the \<open>"result"\<close>
  field when the structured payload is a mapping that has one; else, for a non-empty
  content sequence, the text of the first text block, and the textual representation of
  the whole sequence when it has no text block; else the textual representation of the
  whole result.  A result that is no \<open>CallToolResult\<close> is rendered whole.  The textual form
  of a string field is the string itself.
\<close>

theorem tool_result_text_priority:
  "(result_field sc v \<longrightarrow>
      extract_tool_result_text env (CallToolResult cont sc) = py_str (repr_json env) v) \<and>
   (\<not> (\<exists>v. result_field sc v) \<and> cont = pre @ TextContent t # post \<and>
    list_all (\<lambda>c. c = OtherContent) pre \<longrightarrow>
      extract_tool_result_text env (CallToolResult cont sc) = t) \<and>
   (\<not> (\<exists>v. result_field sc v) \<and> cont \<noteq> [] \<and> list_all (\<lambda>c. c = OtherContent) cont \<longrightarrow>
      extract_tool_result_text env (CallToolResult cont sc) = repr_content env cont) \<and>
   (\<not> (\<exists>v. result_field sc v) \<and> cont = [] \<longrightarrow>
      extract_tool_result_text env (CallToolResult cont sc) =
        repr_result env (CallToolResult cont sc)) \<and>
   extract_tool_result_text env OtherResult = repr_result env OtherResult \<and>
   py_str (repr_json env) (JStr s) = s"
proof -
  have 1: "extract_tool_result_text env (CallToolResult cont sc) = py_str (repr_json env) v"
    if "result_field sc v"
    using that by (auto simp: result_field_def extract_tool_result_text_def)
  have 2: "extract_tool_result_text env (CallToolResult cont sc) = t"
    if "\<not> (\<exists>v. result_field sc v)" "cont = pre @ TextContent t # post"
      "list_all (\<lambda>c. c = OtherContent) pre"
    using no_result_field[OF that(1)] first_text_Some[OF that(3), of t post] that(2)
    by (simp add: extract_tool_result_text_def)
  have 3: "extract_tool_result_text env (CallToolResult cont sc) = repr_content env cont"
    if "\<not> (\<exists>v. result_field sc v)" "cont \<noteq> []" "list_all (\<lambda>c. c = OtherContent) cont"
    using no_result_field[OF that(1)] first_text_None[OF that(3)] that(2)
    by (simp add: extract_tool_result_text_def)
  have 4: "extract_tool_result_text env (CallToolResult cont sc) =
        repr_result env (CallToolResult cont sc)"
    if "\<not> (\<exists>v. result_field sc v)" "cont = []"
    using no_result_field[OF that(1)] that(2)
    by (simp add: extract_tool_result_text_def)
  have 5: "extract_tool_result_text env OtherResult = repr_result env OtherResult"
    by (simp add: extract_tool_result_text_def)
  have 6: "py_str (repr_json env) (JStr s) = s" by (simp add: py_str_def)
  show ?thesis using 1 2 3 4 5 6 by blast
qed

text \<open>
  One result for each of the four branches.
\<close>

theorem tool_result_text_priority_witness:
  "extract_tool_result_text failing_env
     (CallToolResult [TextContent ''ignored''] (Some (JObj [(''result'', JStr ''The plan'')]))) =
     ''The plan'' \<and>
   extract_tool_result_text failing_env
     (CallToolResult [OtherContent, TextContent ''first'', TextContent ''second''] None) =
     ''first'' \<and>
   extract_tool_result_text failing_env (CallToolResult [OtherContent] None) =
     repr_content failing_env [OtherContent] \<and>
   extract_tool_result_text failing_env (CallToolResult [] (Some (JObj []))) =
     repr_result failing_env (CallToolResult [] (Some (JObj [])))"
proof -
  have r: "result_field (Some (JObj [(''result'', JStr ''The plan'')])) (JStr ''The plan'')"
    "\<not> (\<exists>v. result_field None v)" "\<not> (\<exists>v. result_field (Some (JObj [])) v)"
    by (simp_all add: result_field_def)
  have 1: "extract_tool_result_text failing_env
     (CallToolResult [TextContent ''ignored''] (Some (JObj [(''result'', JStr ''The plan'')]))) =
     ''The plan''"
    using tool_result_text_priority[where env = failing_env
        and sc = "Some (JObj [(''result'', JStr ''The plan'')])" and v = "JStr ''The plan''"
        and cont = "[TextContent ''ignored'']" and pre = "[]" and t = "[]" and post = "[]"
        and s = "''The plan''"] r(1)
    by simp
  have 2: "extract_tool_result_text failing_env
     (CallToolResult [OtherContent, TextContent ''first'', TextContent ''second''] None) =
     ''first''"
    using tool_result_text_priority[where env = failing_env and sc = None and v = JNull
        and cont = "[OtherContent, TextContent ''first'', TextContent ''second'']"
        and pre = "[OtherContent]" and t = "''first''" and post = "[TextContent ''second'']"
        and s = "[]"] r(2)
    by simp
  have 3: "extract_tool_result_text failing_env (CallToolResult [OtherContent] None) =
     repr_content failing_env [OtherContent]"
    using tool_result_text_priority[where env = failing_env and sc = None and v = JNull
        and cont = "[OtherContent]" and pre = "[]" and t = "[]" and post = "[]" and s = "[]"] r(2)
    by simp
  have 4: "extract_tool_result_text failing_env (CallToolResult [] (Some (JObj []))) =
     repr_result failing_env (CallToolResult [] (Some (JObj [])))"
    using tool_result_text_priority[where env = failing_env and sc = "Some (JObj [])"
        and v = JNull and cont = "[]" and pre = "[]" and t = "[]" and post = "[]" and s = "[]"]
      r(3)
    by simp
  show ?thesis using 1 2 3 4 by blast
qed

section \<open>The document store: replacement and frame\<close>

declare py_replace.simps [simp del]

lemma py_replace_Nil [simp]: "py_replace [] old new = (if old = [] then new else [])"
  by (subst py_replace.simps) simp

lemma py_replace_Cons [simp]:
  "py_replace (c # cs) old new =
     (if old = [] then new @ c # py_replace cs old new
      else if starts_with (c # cs) old
        then new @ py_replace (drop (length old) (c # cs)) old new
      else c # py_replace cs old new)"
  by (subst py_replace.simps) simp

lemma starts_with_occurs: "starts_with s w \<Longrightarrow> occurs_in w s"
  by (cases s) (auto elim: starts_with.elims)

lemma py_replace_absent: "\<not> occurs_in old s \<Longrightarrow> py_replace s old new = s"
proof (induction s)
  case Nil
  then show ?case by simp
next
  case (Cons c s)
  from Cons.prems have "\<not> starts_with (c # s) old" "\<not> occurs_in old s" by simp_all
  moreover from this(1) have "old \<noteq> []" by auto
  ultimately show ?case using Cons.IH by simp
qed

lemma starts_with_iff: "starts_with s w \<longleftrightarrow> (\<exists>r. s = w @ r)"
  by (induction s w rule: starts_with.induct) auto

lemma occurs_in_iff: "occurs_in w s \<longleftrightarrow> (\<exists>a b. s = a @ w @ b)"
proof (induction s)
  case Nil
  then show ?case by auto
next
  case (Cons c s)
  have "(\<exists>a b. c # s = a @ w @ b) \<longleftrightarrow> (\<exists>b. c # s = w @ b) \<or> (\<exists>a b. s = a @ w @ b)"
  proof
    assume "\<exists>a b. c # s = a @ w @ b"
    then obtain a b where ab: "c # s = a @ w @ b" by blast
    show "(\<exists>b. c # s = w @ b) \<or> (\<exists>a b. s = a @ w @ b)"
    proof (cases a)
      case Nil
      then show ?thesis using ab by auto
    next
      case (Cons x a')
      then have "s = a' @ w @ b" using ab by simp
      then show ?thesis by blast
    qed
  next
    assume "(\<exists>b. c # s = w @ b) \<or> (\<exists>a b. s = a @ w @ b)"
    then show "\<exists>a b. c # s = a @ w @ b"
    proof
      assume "\<exists>b. c # s = w @ b"
      then obtain b where "c # s = [] @ w @ b" by auto
      then show ?thesis by blast
    next
      assume "\<exists>a b. s = a @ w @ b"
      then obtain a b where "c # s = (c # a) @ w @ b" by auto
      then show ?thesis by blast
    qed
  qed
  then show ?case using Cons.IH by (simp add: starts_with_iff)
qed

lemma py_replace_here:
  assumes "old \<noteq> []"
  shows "py_replace (old @ b) old new = new @ py_replace b old new"
proof -
  obtain c cs where s: "old = c # cs" using assms by (cases old) auto
  have "starts_with (old @ b) old" by (simp add: starts_with_iff)
  then have "starts_with (c # cs @ b) (c # cs)" using s by simp
  then have "py_replace (c # cs @ b) (c # cs) new = new @ py_replace b (c # cs) new"
    by (subst py_replace_Cons) simp
  then show ?thesis using s by simp
qed

lemma py_replace_first:
  assumes "old \<noteq> []" "\<not> occurs_in old (a @ butlast old)"
  shows "py_replace (a @ old @ b) old new = a @ new @ py_replace b old new"
  using assms(2)
proof (induction a)
  case Nil
  show ?case using py_replace_here[OF assms(1)] by simp
next
  case (Cons c a)
  have no: "\<not> starts_with ((c # a) @ old @ b) old"
  proof
    assume "starts_with ((c # a) @ old @ b) old"
    then obtain r where r: "(c # a) @ old @ b = old @ r" unfolding starts_with_iff by blast
    have len: "length old \<le> length ((c # a) @ butlast old)" by simp
    have "(c # a) @ old @ b = ((c # a) @ butlast old) @ (last old # b)"
      using assms(1) by (metis append.assoc append_Cons append_Nil append_butlast_last_id)
    then have "take (length old) (old @ r) = take (length old) ((c # a) @ butlast old)"
      using r len by (metis take_append diff_is_0_eq' take_0 append_Nil2)
    then have "old = take (length old) ((c # a) @ butlast old)" by simp
    then have "(c # a) @ butlast old = old @ drop (length old) ((c # a) @ butlast old)"
      by (metis append_take_drop_id)
    then have "starts_with ((c # a) @ butlast old) old" unfolding starts_with_iff by blast
    then show False using Cons.prems by simp
  qed
  have "\<not> occurs_in old (a @ butlast old)" using Cons.prems by simp
  from Cons.IH[OF this] show ?case using no assms(1) by simp
qed

text \<open>
  Claim C10.  With \<open>doc_id\<close> in the store, \<open>edit_document\<close> returns the edited text, leaves
  the set of ids and every other document as they were, and stores under \<open>doc_id\<close> the
  previous text with \<open>old_str\<close> replaced by \<open>new_str\<close>; the store is unchanged when
  \<open>old_str\<close> does not occur.  With \<open>doc_id\<close> not in the store the call raises and the store
  is unchanged.  Replacement leaves a text without occurrence as it is, and otherwise
  rewrites the leftmost occurrence and goes on after it, so that every occurrence found
  from the left without overlap is replaced.
\<close>

theorem edit_document_frame:
  "(docs doc_id = Some doc \<longrightarrow>
      fst (edit_document docs doc_id old_str new_str) = Inr (py_replace doc old_str new_str) \<and>
      dom (snd (edit_document docs doc_id old_str new_str)) = dom docs \<and>
      (\<forall>k. k \<noteq> doc_id \<longrightarrow> snd (edit_document docs doc_id old_str new_str) k = docs k) \<and>
      snd (edit_document docs doc_id old_str new_str) doc_id =
        Some (py_replace doc old_str new_str) \<and>
      (\<not> occurs_in old_str doc \<longrightarrow> snd (edit_document docs doc_id old_str new_str) = docs)) \<and>
   (docs doc_id = None \<longrightarrow>
      (\<exists>e. fst (edit_document docs doc_id old_str new_str) = Inl e) \<and>
      snd (edit_document docs doc_id old_str new_str) = docs) \<and>
   (\<not> occurs_in old_str doc \<longrightarrow> py_replace doc old_str new_str = doc) \<and>
   (old_str \<noteq> [] \<and> \<not> occurs_in old_str (a @ butlast old_str) \<longrightarrow>
      py_replace (a @ old_str @ b) old_str new_str = a @ new_str @ py_replace b old_str new_str)"
proof -
  have a: "fst (edit_document docs doc_id old_str new_str) = Inr (py_replace doc old_str new_str) \<and>
      dom (snd (edit_document docs doc_id old_str new_str)) = dom docs \<and>
      (\<forall>k. k \<noteq> doc_id \<longrightarrow> snd (edit_document docs doc_id old_str new_str) k = docs k) \<and>
      snd (edit_document docs doc_id old_str new_str) doc_id =
        Some (py_replace doc old_str new_str)"
    if "docs doc_id = Some doc"
    using that by (auto simp: edit_document_def Let_def)
  have b: "snd (edit_document docs doc_id old_str new_str) = docs"
    if "docs doc_id = Some doc" "\<not> occurs_in old_str doc"
    using that py_replace_absent[OF that(2), of new_str]
    by (auto simp: edit_document_def Let_def)
  have c: "(\<exists>e. fst (edit_document docs doc_id old_str new_str) = Inl e) \<and>
      snd (edit_document docs doc_id old_str new_str) = docs"
    if "docs doc_id = None"
    using that by (simp add: edit_document_def)
  show ?thesis
    using a b c py_replace_absent[of old_str doc new_str]
      py_replace_first[of old_str a b new_str]
    by blast
qed

text \<open>
  An edit that replaces two occurrences, one that finds none, and one of a missing
  document.
\<close>

theorem edit_document_frame_witness:
  "fst (edit_document [''plan.md'' \<mapsto> ''The plan outlines the plan.'', ''spec.txt'' \<mapsto> ''Specs'']
          ''plan.md'' ''plan'' ''map'') = Inr ''The map outlines the map.'' \<and>
   snd (edit_document [''plan.md'' \<mapsto> ''The plan outlines the plan.'', ''spec.txt'' \<mapsto> ''Specs'']
          ''plan.md'' ''plan'' ''map'') ''spec.txt'' = Some ''Specs'' \<and>
   snd (edit_document [''plan.md'' \<mapsto> ''The plan outlines the plan.'', ''spec.txt'' \<mapsto> ''Specs'']
          ''plan.md'' ''report'' ''map'') =
     [''plan.md'' \<mapsto> ''The plan outlines the plan.'', ''spec.txt'' \<mapsto> ''Specs''] \<and>
   snd (edit_document [''plan.md'' \<mapsto> ''The plan outlines the plan.'', ''spec.txt'' \<mapsto> ''Specs'']
          ''missing.md'' ''plan'' ''map'') =
     [''plan.md'' \<mapsto> ''The plan outlines the plan.'', ''spec.txt'' \<mapsto> ''Specs'']"
proof -
  let ?docs = "[''plan.md'' \<mapsto> ''The plan outlines the plan.'', ''spec.txt'' \<mapsto> ''Specs'']"
  have d: "?docs ''plan.md'' = Some ''The plan outlines the plan.''"
    "?docs ''missing.md'' = None" "''spec.txt'' \<noteq> ''plan.md''"
    by simp_all
  have v: "py_replace ''The plan outlines the plan.'' ''plan'' ''map'' = ''The map outlines the map.''"
    by code_simp
  have n: "\<not> occurs_in ''report'' ''The plan outlines the plan.''" by code_simp
  note t1 = edit_document_frame[where docs = ?docs and doc_id = "''plan.md''"
      and doc = "''The plan outlines the plan.''" and old_str = "''plan''" and new_str = "''map''"
      and a = "[]" and b = "[]"]
  note t2 = edit_document_frame[where docs = ?docs and doc_id = "''plan.md''"
      and doc = "''The plan outlines the plan.''" and old_str = "''report''" and new_str = "''map''"
      and a = "[]" and b = "[]"]
  note t3 = edit_document_frame[where docs = ?docs and doc_id = "''missing.md''"
      and doc = "[]" and old_str = "''plan''" and new_str = "''map''"
      and a = "[]" and b = "[]"]
  have 1: "fst (edit_document ?docs ''plan.md'' ''plan'' ''map'') = Inr ''The map outlines the map.''"
    using t1 d(1) v by metis
  have 2: "snd (edit_document ?docs ''plan.md'' ''plan'' ''map'') ''spec.txt'' = ?docs ''spec.txt''"
    using t1 d(1,3) by metis
  have 3: "snd (edit_document ?docs ''plan.md'' ''report'' ''map'') = ?docs"
    using t2 d(1) n by metis
  have 4: "snd (edit_document ?docs ''missing.md'' ''plan'' ''map'') = ?docs"
    using t3 d(2) by metis
  have "?docs ''spec.txt'' = Some ''Specs''" by simp
  with 1 2 3 4 show ?thesis by metis
qed

section \<open>Removal of reasoning markup\<close>

declare re_sub_empty.simps [simp del]

lemma re_sub_empty_Nil [simp]: "re_sub_empty r [] = []"
  by (subst re_sub_empty.simps) simp

lemma re_sub_empty_no_match:
  "rx_match r (None, c # cs) = [] \<Longrightarrow> re_sub_empty r (c # cs) = c # re_sub_empty r cs"
  by (subst re_sub_empty.simps) simp

lemma re_sub_empty_match:
  "rx_match r (None, c # cs) = (g, rest) # ms \<Longrightarrow> length rest < length (c # cs) \<Longrightarrow>
   re_sub_empty r (c # cs) = re_sub_empty r rest"
  by (subst re_sub_empty.simps) simp

lemma lit_match_None: "lit_match w s = None \<longleftrightarrow> \<not> starts_with s w"
proof -
  have "lit_match w s \<noteq> None \<longleftrightarrow> (\<exists>r. lit_match w s = Some r)" by auto
  also have "\<dots> \<longleftrightarrow> starts_with s w" by (simp add: lit_match_iff starts_with_iff)
  finally show ?thesis by blast
qed

lemma lit_match_append [simp]: "lit_match w (w @ r) = Some r"
  by (simp add: lit_match_iff)

text \<open>The first occurrence of \<open>w\<close> in \<open>a @ w @ c\<close> is the one after \<open>a\<close>.\<close>

lemma not_earlier:
  assumes "w \<noteq> []" "\<not> occurs_in w ((y # a) @ butlast w)"
  shows "\<not> starts_with ((y # a) @ w @ c) w"
proof
  assume "starts_with ((y # a) @ w @ c) w"
  then obtain r where r: "(y # a) @ w @ c = w @ r" unfolding starts_with_iff by blast
  have len: "length w \<le> length ((y # a) @ butlast w)" by simp
  have "(y # a) @ w @ c = ((y # a) @ butlast w) @ (last w # c)"
    using assms(1) by (metis append.assoc append_Cons append_Nil append_butlast_last_id)
  then have "take (length w) (w @ r) = take (length w) ((y # a) @ butlast w)"
    using r len by (metis take_append diff_is_0_eq' take_0 append_Nil2)
  then have "w = take (length w) ((y # a) @ butlast w)" by simp
  then have "(y # a) @ butlast w = w @ drop (length w) ((y # a) @ butlast w)"
    by (metis append_take_drop_id)
  then have "starts_with ((y # a) @ butlast w) w" unfolding starts_with_iff by blast
  then show False using assms(2) by simp
qed

lemma closers_Cons:
  "closers (y # s) = rx_match (Lit ''[/THINK]'') (None, y # s) @ closers s"
  by (cases s) (simp_all add: closers_def)

lemma closers_first:
  "\<not> occurs_in ''[/THINK]'' (b @ butlast ''[/THINK]'') \<Longrightarrow>
   \<exists>ms. closers (b @ ''[/THINK]'' @ c) = (None, c) # ms"
proof (induction b)
  case Nil
  have "rx_match (Lit ''[/THINK]'') (None, ''[/THINK]'' @ c) = [(None, c)]"
    by (simp only: rx_match.simps lit_match_append option.case)
  then have "closers (''[/THINK]'' @ c) = (None, c) # closers (''/THINK]'' @ c)"
    using closers_Cons[of "CHR ''[''" "''/THINK]'' @ c"] by simp
  then show ?case by simp
next
  case (Cons y b)
  have "\<not> starts_with ((y # b) @ ''[/THINK]'' @ c) ''[/THINK]''"
    using not_earlier[of "''[/THINK]''" y b c] Cons.prems by simp
  then have "lit_match ''[/THINK]'' ((y # b) @ ''[/THINK]'' @ c) = None"
    using lit_match_None by blast
  then have "rx_match (Lit ''[/THINK]'') (None, (y # b) @ ''[/THINK]'' @ c) = []"
    by (simp only: rx_match.simps option.case)
  then have "closers ((y # b) @ ''[/THINK]'' @ c) = closers (b @ ''[/THINK]'' @ c)"
    using closers_Cons[of y "b @ ''[/THINK]'' @ c"] by simp
  moreover have "\<not> occurs_in ''[/THINK]'' (b @ butlast ''[/THINK]'')"
    using Cons.prems by simp
  ultimately show ?case using Cons.IH by simp
qed

lemma think_match_open:
  "rx_match think_rx (None, ''[THINK]'' @ s) = closers s"
proof -
  have "rx_match (Lit ''[THINK]'') (None, ''[THINK]'' @ s) = [(None, s)]"
    by (simp only: rx_match.simps lit_match_append option.case)
  then show ?thesis
    unfolding think_rx_def closers_def rx_match.simps(4)[of "Lit ''[THINK]''"] by simp
qed

lemma think_match_not_open:
  "\<not> starts_with s ''[THINK]'' \<Longrightarrow> rx_match think_rx (None, s) = []"
proof -
  assume "\<not> starts_with s ''[THINK]''"
  then have "lit_match ''[THINK]'' s = None" using lit_match_None by blast
  then have "rx_match (Lit ''[THINK]'') (None, s) = []"
    by (simp only: rx_match.simps option.case)
  then show ?thesis
    unfolding think_rx_def rx_match.simps(4)[of "Lit ''[THINK]''"] by simp
qed

lemma think_sem:
  "rx_sem think_rx g u g' \<longleftrightarrow> (\<exists>b. u = ''[THINK]'' @ b @ ''[/THINK]'') \<and> g' = g"
  unfolding think_rx_def by auto

lemma think_no_match:
  assumes "\<not> has_think_pair s"
  shows "rx_match think_rx (None, s) = []"
proof (rule ccontr)
  assume "rx_match think_rx (None, s) \<noteq> []"
  then obtain g' r where "(g', r) \<in> set (rx_match think_rx (None, s))"
    by (metis list.set_intros(1) neq_Nil_conv surj_pair)
  then obtain u where "s = u @ r" "rx_sem think_rx None u g'"
    unfolding rx_match_iff by blast
  then obtain b where "s = [] @ ''[THINK]'' @ b @ ''[/THINK]'' @ r"
    unfolding think_sem by auto
  then show False using assms unfolding has_think_pair_def by blast
qed

lemma has_think_pair_Cons: "has_think_pair s \<Longrightarrow> has_think_pair (y # s)"
proof -
  assume "has_think_pair s"
  then obtain a b c where "s = a @ ''[THINK]'' @ b @ ''[/THINK]'' @ c"
    unfolding has_think_pair_def by blast
  then have "y # s = (y # a) @ ''[THINK]'' @ b @ ''[/THINK]'' @ c" by simp
  then show ?thesis unfolding has_think_pair_def by blast
qed

lemma re_sub_no_pair: "\<not> has_think_pair s \<Longrightarrow> re_sub_empty think_rx s = s"
proof (induction s)
  case Nil
  show ?case by simp
next
  case (Cons y s)
  have "\<not> has_think_pair s" using Cons.prems has_think_pair_Cons by blast
  then have "re_sub_empty think_rx s = s" by (rule Cons.IH)
  then show ?case
    using re_sub_empty_no_match[OF think_no_match[OF Cons.prems]] by simp
qed

lemma re_sub_first_pair:
  assumes "\<not> occurs_in ''[THINK]'' (a @ butlast ''[THINK]'')"
    and "\<not> occurs_in ''[/THINK]'' (b @ butlast ''[/THINK]'')"
  shows "re_sub_empty think_rx (a @ ''[THINK]'' @ b @ ''[/THINK]'' @ c) =
           a @ re_sub_empty think_rx c"
  using assms(1)
proof (induction a)
  case Nil
  obtain ms where "closers (b @ ''[/THINK]'' @ c) = (None, c) # ms"
    using closers_first[OF assms(2)] by blast
  then have m: "rx_match think_rx (None, CHR ''['' # ''THINK]'' @ b @ ''[/THINK]'' @ c) = (None, c) # ms"
    using think_match_open[of "b @ ''[/THINK]'' @ c"] by simp
  have "re_sub_empty think_rx (CHR ''['' # ''THINK]'' @ b @ ''[/THINK]'' @ c) =
      re_sub_empty think_rx c"
    by (rule re_sub_empty_match[OF m]) simp
  then show ?case by simp
next
  case (Cons y a)
  have "\<not> starts_with ((y # a) @ ''[THINK]'' @ (b @ ''[/THINK]'' @ c)) ''[THINK]''"
    using not_earlier[of "''[THINK]''" y a "b @ ''[/THINK]'' @ c"] Cons.prems by simp
  then have "rx_match think_rx (None, y # (a @ ''[THINK]'' @ b @ ''[/THINK]'' @ c)) = []"
    using think_match_not_open by simp
  then have "re_sub_empty think_rx (y # (a @ ''[THINK]'' @ b @ ''[/THINK]'' @ c)) =
      y # re_sub_empty think_rx (a @ ''[THINK]'' @ b @ ''[/THINK]'' @ c)"
    by (rule re_sub_empty_no_match)
  moreover have "\<not> occurs_in ''[THINK]'' (a @ butlast ''[THINK]'')"
    using Cons.prems by simp
  ultimately show ?case using Cons.IH by simp
qed

lemma think_match_iff:
  "rx_match think_rx (None, t) \<noteq> [] \<longleftrightarrow> (\<exists>b c. t = ''[THINK]'' @ b @ ''[/THINK]'' @ c)"
proof
  assume "rx_match think_rx (None, t) \<noteq> []"
  then obtain g' r where "(g', r) \<in> set (rx_match think_rx (None, t))"
    by (metis list.set_intros(1) neq_Nil_conv surj_pair)
  then obtain u where "t = u @ r" "rx_sem think_rx None u g'"
    unfolding rx_match_iff by blast
  then obtain b where "t = ''[THINK]'' @ b @ ''[/THINK]'' @ r"
    unfolding think_sem by auto
  then show "\<exists>b c. t = ''[THINK]'' @ b @ ''[/THINK]'' @ c" by blast
next
  assume "\<exists>b c. t = ''[THINK]'' @ b @ ''[/THINK]'' @ c"
  then obtain b c where t: "t = (''[THINK]'' @ b @ ''[/THINK]'') @ c" by auto
  have "rx_sem think_rx None (''[THINK]'' @ b @ ''[/THINK]'') None"
    unfolding think_sem by blast
  with t have "(None, c) \<in> set (rx_match think_rx (None, t))"
    unfolding rx_match_iff by blast
  then show "rx_match think_rx (None, t) \<noteq> []" by auto
qed

lemma has_think_pair_search: "has_think_pair s \<longleftrightarrow> re_search think_rx s \<noteq> None"
proof -
  have "re_search think_rx s \<noteq> None \<longleftrightarrow>
        (\<exists>pre t. s = pre @ t \<and> rx_match think_rx (None, t) \<noteq> [])"
    unfolding re_search_None by blast
  also have "\<dots> \<longleftrightarrow> (\<exists>pre t. s = pre @ t \<and> (\<exists>b c. t = ''[THINK]'' @ b @ ''[/THINK]'' @ c))"
    unfolding think_match_iff ..
  also have "\<dots> \<longleftrightarrow> has_think_pair s"
    unfolding has_think_pair_def by blast
  finally show ?thesis by blast
qed

text \<open>
  Claim C9.  The text between a matched pair of markers goes, with the markers; the rest
  stays.  A reply with no opening marker followed by a closing marker is only stripped of
  surrounding whitespace.  Otherwise the reply is \<open>a\<close>, the first opening marker, \<open>b\<close>, the
  first closing marker after it, and \<open>c\<close>: then \<open>a\<close> is kept, the block from marker to marker
  is removed whatever characters \<open>b\<close> holds (line breaks too), and the removal goes on in
  \<open>c\<close>; the result is stripped of surrounding whitespace.  The text of a message is the
  stripped, cleaned raw text of its content, which for a string content is that string.
\<close>

theorem strip_thinking_removes_blocks:
  "(\<not> has_think_pair reply \<longrightarrow>
      re_sub_empty think_rx reply = reply \<and> strip_thinking reply = py_strip reply) \<and>
   (\<not> occurs_in ''[THINK]'' (a @ ''[THINK'') \<and> \<not> occurs_in ''[/THINK]'' (b @ ''[/THINK'') \<longrightarrow>
      re_sub_empty think_rx (a @ ''[THINK]'' @ b @ ''[/THINK]'' @ c) =
        a @ re_sub_empty think_rx c \<and>
      strip_thinking (a @ ''[THINK]'' @ b @ ''[/THINK]'' @ c) =
        py_strip (a @ re_sub_empty think_rx c)) \<and>
   text_from_message rp m = py_strip (re_sub_empty think_rx (message_raw rp m)) \<and>
   (content m = ContentStr reply \<longrightarrow> message_raw rp m = reply)"
proof -
  have 1: "re_sub_empty think_rx reply = reply \<and> strip_thinking reply = py_strip reply"
    if "\<not> has_think_pair reply"
    using re_sub_no_pair[OF that] by (simp add: strip_thinking_def)
  have 2: "re_sub_empty think_rx (a @ ''[THINK]'' @ b @ ''[/THINK]'' @ c) =
        a @ re_sub_empty think_rx c \<and>
      strip_thinking (a @ ''[THINK]'' @ b @ ''[/THINK]'' @ c) =
        py_strip (a @ re_sub_empty think_rx c)"
    if "\<not> occurs_in ''[THINK]'' (a @ ''[THINK'')" "\<not> occurs_in ''[/THINK]'' (b @ ''[/THINK'')"
  proof -
    have "\<not> occurs_in ''[THINK]'' (a @ butlast ''[THINK]'')"
      "\<not> occurs_in ''[/THINK]'' (b @ butlast ''[/THINK]'')"
      using that by simp_all
    from re_sub_first_pair[OF this, of c] show ?thesis
      by (simp add: strip_thinking_def)
  qed
  have 3: "text_from_message rp m = py_strip (re_sub_empty think_rx (message_raw rp m))"
    by (simp add: text_from_message_def strip_thinking_def)
  have 4: "message_raw rp m = reply" if "content m = ContentStr reply"
    using that by (simp add: message_raw_def)
  show ?thesis using 1 2 3 4 by blast
qed

text \<open>
  A reply with a block over two lines, an empty block and an opening marker that is never
  closed; and a reply whose markers are in the wrong order.
\<close>

theorem strip_thinking_removes_blocks_witness:
  "\<not> occurs_in ''[THINK]'' ('' '' @ ''[THINK'') \<and>
   \<not> occurs_in ''[/THINK]'' (''a\<newline>b'' @ ''[/THINK'') \<and>
   re_sub_empty think_rx ('' '' @ ''[THINK]'' @ ''a\<newline>b'' @ ''[/THINK]'' @ '' hi [THINK][/THINK] there[THINK] '') =
     ''  hi  there[THINK] '' \<and>
   strip_thinking ('' '' @ ''[THINK]'' @ ''a\<newline>b'' @ ''[/THINK]'' @ '' hi [THINK][/THINK] there[THINK] '') =
     ''hi  there[THINK]'' \<and>
   \<not> has_think_pair '' [/THINK] no pair [THINK] '' \<and>
   strip_thinking '' [/THINK] no pair [THINK] '' = ''[/THINK] no pair [THINK]''"
proof -
  let ?c = "'' hi [THINK][/THINK] there[THINK] ''"
  let ?t = "'' [/THINK] no pair [THINK] ''"
  have h: "\<not> occurs_in ''[THINK]'' ('' '' @ ''[THINK'')"
    "\<not> occurs_in ''[/THINK]'' (''a\<newline>b'' @ ''[/THINK'')"
    by code_simp+
  have n: "\<not> has_think_pair ?t"
    unfolding has_think_pair_search by code_simp
  have c: "re_sub_empty think_rx ?c = '' hi  there[THINK] ''" by code_simp
  have s: "py_strip ('' '' @ '' hi  there[THINK] '') = ''hi  there[THINK]''"
    "py_strip ?t = ''[/THINK] no pair [THINK]''" by code_simp+
  note t1 = strip_thinking_removes_blocks[where a = "'' ''" and b = "''a\<newline>b''" and c = ?c
      and reply = ?t and rp = "\<lambda>v. []" and m = "\<lparr>content = ContentStr ?t, stop_reason = []\<rparr>"]
  have 1: "re_sub_empty think_rx ('' '' @ ''[THINK]'' @ ''a\<newline>b'' @ ''[/THINK]'' @ ?c) =
      '' '' @ re_sub_empty think_rx ?c"
    "strip_thinking ('' '' @ ''[THINK]'' @ ''a\<newline>b'' @ ''[/THINK]'' @ ?c) =
      py_strip ('' '' @ re_sub_empty think_rx ?c)"
    using t1 h by blast+
  have 2: "strip_thinking ?t = py_strip ?t" using t1 n by blast
  have 3: "re_sub_empty think_rx ('' '' @ ''[THINK]'' @ ''a\<newline>b'' @ ''[/THINK]'' @ ?c) =
     ''  hi  there[THINK] ''" unfolding 1 c by simp
  have 4: "strip_thinking ('' '' @ ''[THINK]'' @ ''a\<newline>b'' @ ''[/THINK]'' @ ?c) =
     ''hi  there[THINK]''" unfolding 1 c s ..
  have 5: "strip_thinking ?t = ''[/THINK] no pair [THINK]''" unfolding 2 s ..
  show ?thesis using h n 3 4 5 by blast
qed

end
